theory Spec2Isabelle
  imports Main
begin

section \<open>JavaScript values\<close>

text \<open>
  The services receive their data from \<^verbatim>\<open>JSON.parse\<close> applied to the text a language
  model returned, and cast it to the declared interfaces without a check. The model
  therefore works on runtime values: a story, a scene and an art style are values of
  \<open>jsval\<close>, whatever the TypeScript annotation says.

  Numbers are integers (scene ids, array lengths, the scene count), taken in the range
  where a double is exact; strings are lists of 8-bit characters, each standing for one
  code unit. An object is the list of its own properties in insertion order, each key
  once in every value that \<open>JSON_parse\<close> builds; that the runtime lists integer-like
  keys first is not modelled, and no property below depends on the order of keys.
\<close>

datatype jsval =
    JUndefined
  | JNull
  | JBool bool
  | JNum int
  | JStr string
  | JArr "jsval list"
  | JObj "(string \<times> jsval) list"

datatype error =
    Error string
  | TypeError
  | SyntaxError
  | ApiError
  | ValidationError
  | RowNotFound
  | DatabaseError

text \<open>\<open>Error m\<close> is \<^verbatim>\<open>new Error(m)\<close> thrown by the source; \<open>TypeError\<close> is raised by the
  runtime (a property read on \<^verbatim>\<open>null\<close> or \<^verbatim>\<open>undefined\<close>, a call of something that is
  not a function, an object that has no primitive value); \<open>SyntaxError\<close> is raised by
  \<^verbatim>\<open>JSON.parse\<close>; \<open>ApiError\<close> is a rejected request to the provider;
  \<open>ValidationError\<close>, \<open>RowNotFound\<close> and \<open>DatabaseError\<close> come from the validator and
  the persistence layer.\<close>

definition and_then :: "error + 'a \<Rightarrow> ('a \<Rightarrow> error + 'b) \<Rightarrow> error + 'b" where
  "and_then m f = (case m of Inl e \<Rightarrow> Inl e | Inr x \<Rightarrow> f x)"

fun truthy :: "jsval \<Rightarrow> bool" where
  "truthy JUndefined = False"
| "truthy JNull = False"
| "truthy (JBool b) = b"
| "truthy (JNum i) = (i \<noteq> 0)"
| "truthy (JStr s) = (s \<noteq> [])"
| "truthy (JArr xs) = True"
| "truthy (JObj kvs) = True"

fun isArray :: "jsval \<Rightarrow> bool" where
  "isArray (JArr xs) = True"
| "isArray v = False"

subsection \<open>Numbers as decimal text\<close>

fun show_nat :: "nat \<Rightarrow> string" where
  "show_nat n =
     (if n < 10 then [char_of (48 + n)]
      else show_nat (n div 10) @ [char_of (48 + n mod 10)])"

declare show_nat.simps [simp del]

definition show_int :: "int \<Rightarrow> string" where
  "show_int i = (if i < 0 then CHR ''-'' # show_nat (nat (- i)) else show_nat (nat i))"

subsection \<open>Property access, spread and conversion to string\<close>

definition index_of :: "string \<Rightarrow> nat \<Rightarrow> nat option" where
  "index_of k n = List.find (\<lambda>i. show_nat i = k) [0..<n]"

text \<open>\<open>get_prop v k\<close> is \<^verbatim>\<open>v.k\<close>: own properties, the elements and the length of an array
  or a string. The source reads no inherited property.\<close>

fun get_prop :: "jsval \<Rightarrow> string \<Rightarrow> error + jsval" where
  "get_prop JUndefined k = Inl TypeError"
| "get_prop JNull k = Inl TypeError"
| "get_prop (JBool b) k = Inr JUndefined"
| "get_prop (JNum i) k = Inr JUndefined"
| "get_prop (JStr s) k =
     (if k = ''length'' then Inr (JNum (int (length s)))
      else case index_of k (length s) of
             None \<Rightarrow> Inr JUndefined
           | Some i \<Rightarrow> Inr (JStr [s ! i]))"
| "get_prop (JArr xs) k =
     (if k = ''length'' then Inr (JNum (int (length xs)))
      else case index_of k (length xs) of
             None \<Rightarrow> Inr JUndefined
           | Some i \<Rightarrow> Inr (xs ! i))"
| "get_prop (JObj kvs) k =
     (case map_of kvs k of None \<Rightarrow> Inr JUndefined | Some v \<Rightarrow> Inr v)"

text \<open>The own enumerable properties that \<^verbatim>\<open>{...v}\<close> copies.\<close>

fun own_props :: "jsval \<Rightarrow> (string \<times> jsval) list" where
  "own_props (JObj kvs) = kvs"
| "own_props (JArr xs) = map (\<lambda>(i, x). (show_nat i, x)) (enumerate 0 xs)"
| "own_props (JStr s) = map (\<lambda>(i, c). (show_nat i, JStr [c])) (enumerate 0 s)"
| "own_props v = []"

text \<open>Writing a property keeps the position of a key that exists and appends a new one.\<close>

fun set_prop :: "(string \<times> jsval) list \<Rightarrow> string \<Rightarrow> jsval \<Rightarrow> (string \<times> jsval) list" where
  "set_prop [] k v = [(k, v)]"
| "set_prop ((k', v') # kvs) k v =
     (if k' = k then (k, v) # kvs else (k', v') # set_prop kvs k v)"

fun join :: "string \<Rightarrow> string list \<Rightarrow> string" where
  "join sep [] = []"
| "join sep [x] = x"
| "join sep (x # y # ys) = x @ sep @ join sep (y # ys)"

text \<open>\<open>to_string v\<close> is the conversion a template literal applies to \<^verbatim>\<open>${v}\<close>. An array is
  joined with commas, \<^verbatim>\<open>null\<close> and \<^verbatim>\<open>undefined\<close> elements giving the empty string. An
  object gives \<^verbatim>\<open>[object Object]\<close>, unless it has an own property \<^verbatim>\<open>toString\<close>: parsed
  from JSON that property is not callable, the inherited \<^verbatim>\<open>valueOf\<close> returns the object,
  and the conversion throws.\<close>

fun to_string :: "jsval \<Rightarrow> error + string"
  and to_string_elements :: "jsval list \<Rightarrow> error + string list" where
  "to_string JUndefined = Inr ''undefined''"
| "to_string JNull = Inr ''null''"
| "to_string (JBool b) = Inr (if b then ''true'' else ''false'')"
| "to_string (JNum i) = Inr (show_int i)"
| "to_string (JStr s) = Inr s"
| "to_string (JArr xs) =
     (case to_string_elements xs of Inl e \<Rightarrow> Inl e | Inr ss \<Rightarrow> Inr (join '','' ss))"
| "to_string (JObj kvs) =
     (if ''toString'' \<in> set (map fst kvs) then Inl TypeError else Inr ''[object Object]'')"
| "to_string_elements [] = Inr []"
| "to_string_elements (x # xs) =
     (case (if x = JUndefined \<or> x = JNull then Inr [] else to_string x) of
        Inl e \<Rightarrow> Inl e
      | Inr s \<Rightarrow>
          (case to_string_elements xs of Inl e \<Rightarrow> Inl e | Inr ss \<Rightarrow> Inr (s # ss)))"

definition is_js_space :: "char \<Rightarrow> bool" where
  "is_js_space c =
     ((9 \<le> (of_char c :: nat) \<and> (of_char c :: nat) \<le> 13) \<or> c = CHR 0x20 \<or> c = CHR 0xA0)"

definition trim :: "string \<Rightarrow> string" where
  "trim s = rev (dropWhile is_js_space (rev (dropWhile is_js_space s)))"

section \<open>JSON text\<close>

subsection \<open>\<^verbatim>\<open>JSON.stringify\<close>\<close>

definition hex_digit :: "nat \<Rightarrow> char" where
  "hex_digit d = (if d < 10 then char_of (48 + d) else char_of (87 + d))"

definition quote_char :: "char \<Rightarrow> string" where
  "quote_char c =
     (if c = CHR 0x08 then [CHR 0x5C, CHR ''b'']
      else if c = CHR 0x09 then [CHR 0x5C, CHR ''t'']
      else if c = CHR 0x0A then [CHR 0x5C, CHR ''n'']
      else if c = CHR 0x0C then [CHR 0x5C, CHR ''f'']
      else if c = CHR 0x0D then [CHR 0x5C, CHR ''r'']
      else if c = CHR 0x22 then [CHR 0x5C, CHR 0x22]
      else if c = CHR 0x5C then [CHR 0x5C, CHR 0x5C]
      else if (of_char c :: nat) < 32 then
        [CHR 0x5C, CHR ''u'', CHR ''0'', CHR ''0'',
         hex_digit (of_char c div 16), hex_digit (of_char c mod 16)]
      else [c])"

definition quote :: "string \<Rightarrow> string" where
  "quote s = CHR 0x22 # concat (map quote_char s) @ [CHR 0x22]"

text \<open>The compact form, without indentation. In an array \<^verbatim>\<open>undefined\<close> is written
  \<^verbatim>\<open>null\<close>; in an object a property whose value is \<^verbatim>\<open>undefined\<close> is left out.\<close>

fun stringify_value :: "jsval \<Rightarrow> string"
  and stringify_elements :: "jsval list \<Rightarrow> string list"
  and stringify_members :: "(string \<times> jsval) list \<Rightarrow> string list" where
  "stringify_value JUndefined = ''null''"
| "stringify_value JNull = ''null''"
| "stringify_value (JBool b) = (if b then ''true'' else ''false'')"
| "stringify_value (JNum i) = show_int i"
| "stringify_value (JStr s) = quote s"
| "stringify_value (JArr xs) = ''['' @ join '','' (stringify_elements xs) @ '']''"
| "stringify_value (JObj kvs) = ''{'' @ join '','' (stringify_members kvs) @ ''}''"
| "stringify_elements [] = []"
| "stringify_elements (x # xs) = stringify_value x # stringify_elements xs"
| "stringify_members [] = []"
| "stringify_members ((k, v) # kvs) =
     (if v = JUndefined then stringify_members kvs
      else (quote k @ '':'' @ stringify_value v) # stringify_members kvs)"

text \<open>\<^verbatim>\<open>JSON.stringify(undefined)\<close> is \<^verbatim>\<open>undefined\<close>, here \<open>None\<close>.\<close>

definition JSON_stringify :: "jsval \<Rightarrow> string option" where
  "JSON_stringify v = (if v = JUndefined then None else Some (stringify_value v))"

subsection \<open>\<^verbatim>\<open>JSON.parse\<close>\<close>

text \<open>
  A recursive-descent parser of the JSON grammar: white space, the three literals,
  strings with their escapes, arrays and objects. A repeated key keeps its first
  position and its last value. \<open>None\<close> is the \<^verbatim>\<open>SyntaxError\<close>.

  Two kinds of text lie outside the value model and also give \<open>None\<close>: a numeral with a
  fraction or an exponent (a floating-point number), and an escape
  \<^verbatim>\<open>\u\<close> above \<^verbatim>\<open>00ff\<close> (a code unit beyond 8 bits). The recognizer \<open>is_JSON\<close>
  below tells them from the texts that are not JSON.

  The recursion is structural on a fuel argument that \<open>JSON_parse\<close> sets above the
  length of the text. Every call consumes a character, so this fuel is enough: a text
  that some amount of fuel parses is parsed by \<open>JSON_parse\<close> (lemma
  \<open>JSON_parse_enough_fuel\<close>), and \<open>None\<close> never stands for fuel that ran out.
\<close>

definition is_ws :: "char \<Rightarrow> bool" where
  "is_ws c = (c = CHR 0x20 \<or> c = CHR 0x09 \<or> c = CHR 0x0A \<or> c = CHR 0x0D)"

definition skip_ws :: "string \<Rightarrow> string" where
  "skip_ws s = dropWhile is_ws s"

definition is_digit :: "char \<Rightarrow> bool" where
  "is_digit c = (48 \<le> (of_char c :: nat) \<and> (of_char c :: nat) \<le> 57)"

definition digits_val :: "string \<Rightarrow> nat" where
  "digits_val ds = foldl (\<lambda>a c. 10 * a + (of_char c - 48)) 0 ds"

definition hex_val :: "char \<Rightarrow> nat option" where
  "hex_val c =
     (let n = (of_char c :: nat) in
      if 48 \<le> n \<and> n \<le> 57 then Some (n - 48)
      else if 97 \<le> n \<and> n \<le> 102 then Some (n - 87)
      else if 65 \<le> n \<and> n \<le> 70 then Some (n - 55)
      else None)"

definition unescape :: "char \<Rightarrow> char option" where
  "unescape e =
     (if e = CHR 0x22 then Some (CHR 0x22)
      else if e = CHR 0x5C then Some (CHR 0x5C)
      else if e = CHR ''/'' then Some (CHR ''/'')
      else if e = CHR ''b'' then Some (CHR 0x08)
      else if e = CHR ''f'' then Some (CHR 0x0C)
      else if e = CHR ''n'' then Some (CHR 0x0A)
      else if e = CHR ''r'' then Some (CHR 0x0D)
      else if e = CHR ''t'' then Some (CHR 0x09)
      else None)"

definition cons_fst :: "'a \<Rightarrow> ('a list \<times> 'b) option \<Rightarrow> ('a list \<times> 'b) option" where
  "cons_fst x r = (case r of None \<Rightarrow> None | Some (xs, t) \<Rightarrow> Some (x # xs, t))"

text \<open>The characters of a string after its opening quote, up to the closing one.\<close>

fun parse_chars :: "string \<Rightarrow> (string \<times> string) option" where
  "parse_chars [] = None"
| "parse_chars (c # cs) =
     (if c = CHR 0x22 then Some ([], cs)
      else if c = CHR 0x5C then
        (case cs of
           [] \<Rightarrow> None
         | e # r \<Rightarrow>
             if e = CHR ''u'' then
               (case r of
                  h3 # h2 # h1 # h0 # r' \<Rightarrow>
                    (case (hex_val h3, hex_val h2, hex_val h1, hex_val h0) of
                       (Some x3, Some x2, Some x1, Some x0) \<Rightarrow>
                         if x3 = 0 \<and> x2 = 0
                         then cons_fst (char_of (16 * x1 + x0)) (parse_chars r')
                         else None
                     | _ \<Rightarrow> None)
                | _ \<Rightarrow> None)
             else
               (case unescape e of
                  None \<Rightarrow> None
                | Some ch \<Rightarrow> cons_fst ch (parse_chars r)))
      else if (of_char c :: nat) < 32 then None
      else cons_fst c (parse_chars cs))"

definition parse_number :: "string \<Rightarrow> (jsval \<times> string) option" where
  "parse_number s =
     (let neg = (s \<noteq> [] \<and> hd s = CHR ''-'');
          s1 = (if neg then tl s else s);
          ds = takeWhile is_digit s1;
          rest = dropWhile is_digit s1
      in if ds = [] then None
         else if hd ds = CHR ''0'' \<and> 1 < length ds then None
         else if rest \<noteq> [] \<and> hd rest \<in> {CHR ''.'', CHR ''e'', CHR ''E''} then None
         else Some (JNum (if neg then - int (digits_val ds) else int (digits_val ds)), rest))"

fun strip_prefix :: "string \<Rightarrow> string \<Rightarrow> string option" where
  "strip_prefix [] s = Some s"
| "strip_prefix (p # ps) [] = None"
| "strip_prefix (p # ps) (c # cs) = (if p = c then strip_prefix ps cs else None)"

definition parse_literal :: "string \<Rightarrow> jsval \<Rightarrow> string \<Rightarrow> (jsval \<times> string) option" where
  "parse_literal word v s = map_option (\<lambda>t. (v, t)) (strip_prefix word s)"

definition object_of :: "(string \<times> jsval) list \<Rightarrow> jsval" where
  "object_of members = JObj (foldl (\<lambda>acc (k, v). set_prop acc k v) [] members)"

fun parse_value :: "nat \<Rightarrow> string \<Rightarrow> (jsval \<times> string) option"
  and parse_elements :: "nat \<Rightarrow> string \<Rightarrow> (jsval list \<times> string) option"
  and parse_members :: "nat \<Rightarrow> string \<Rightarrow> ((string \<times> jsval) list \<times> string) option" where
  "parse_value 0 s = None"
| "parse_value (Suc n) s =
     (case skip_ws s of
        [] \<Rightarrow> None
      | c # r \<Rightarrow>
          if c = CHR ''['' then
            (case skip_ws r of
               [] \<Rightarrow> None
             | d # r' \<Rightarrow>
                 if d = CHR '']'' then Some (JArr [], r')
                 else map_option (\<lambda>(xs, t). (JArr xs, t)) (parse_elements n r))
          else if c = CHR ''{'' then
            (case skip_ws r of
               [] \<Rightarrow> None
             | d # r' \<Rightarrow>
                 if d = CHR ''}'' then Some (JObj [], r')
                 else map_option (\<lambda>(kvs, t). (object_of kvs, t)) (parse_members n r))
          else if c = CHR 0x22 then map_option (\<lambda>(str, t). (JStr str, t)) (parse_chars r)
          else if c = CHR ''n'' then parse_literal ''null'' JNull (c # r)
          else if c = CHR ''t'' then parse_literal ''true'' (JBool True) (c # r)
          else if c = CHR ''f'' then parse_literal ''false'' (JBool False) (c # r)
          else if c = CHR ''-'' \<or> is_digit c then parse_number (c # r)
          else None)"
| "parse_elements 0 s = None"
| "parse_elements (Suc n) s =
     (case parse_value n s of
        None \<Rightarrow> None
      | Some (v, r) \<Rightarrow>
          (case skip_ws r of
             [] \<Rightarrow> None
           | d # r' \<Rightarrow>
               if d = CHR '','' then cons_fst v (parse_elements n r')
               else if d = CHR '']'' then Some ([v], r')
               else None))"
| "parse_members 0 s = None"
| "parse_members (Suc n) s =
     (case skip_ws s of
        [] \<Rightarrow> None
      | q # r \<Rightarrow>
          if q \<noteq> CHR 0x22 then None
          else
            (case parse_chars r of
               None \<Rightarrow> None
             | Some (k, r1) \<Rightarrow>
                 (case skip_ws r1 of
                    [] \<Rightarrow> None
                  | col # r2 \<Rightarrow>
                      if col \<noteq> CHR '':'' then None
                      else
                        (case parse_value n r2 of
                           None \<Rightarrow> None
                         | Some (v, r3) \<Rightarrow>
                             (case skip_ws r3 of
                                [] \<Rightarrow> None
                              | d # r4 \<Rightarrow>
                                  if d = CHR '','' then cons_fst (k, v) (parse_members n r4)
                                  else if d = CHR ''}'' then Some ([(k, v)], r4)
                                  else None)))))"

definition JSON_parse :: "string \<Rightarrow> jsval option" where
  "JSON_parse s =
     (case parse_value (Suc (length s)) s of
        None \<Rightarrow> None
      | Some (v, r) \<Rightarrow> if skip_ws r = [] then Some v else None)"

text \<open>The values that JSON text denotes: no \<^verbatim>\<open>undefined\<close> inside, no key twice.\<close>

fun wf_json :: "jsval \<Rightarrow> bool"
  and wf_elements :: "jsval list \<Rightarrow> bool"
  and wf_members :: "(string \<times> jsval) list \<Rightarrow> bool" where
  "wf_json JUndefined = False"
| "wf_json JNull = True"
| "wf_json (JBool b) = True"
| "wf_json (JNum i) = True"
| "wf_json (JStr s) = True"
| "wf_json (JArr xs) = wf_elements xs"
| "wf_json (JObj kvs) = (distinct (map fst kvs) \<and> wf_members kvs)"
| "wf_elements [] = True"
| "wf_elements (x # xs) = (wf_json x \<and> wf_elements xs)"
| "wf_members [] = True"
| "wf_members ((k, v) # kvs) = (wf_json v \<and> wf_members kvs)"

subsection \<open>The JSON grammar\<close>

text \<open>
  A recognizer of the whole JSON grammar, with the same structure as the parser. It differs
  from the parser in the two places where the parser gives up: a numeral may have a
  fraction and an exponent, and an escape \<^verbatim>\<open>\u\<close> may name any code unit. A text that
  \<open>is_JSON\<close> refuses is one on which \<^verbatim>\<open>JSON.parse\<close> throws its \<^verbatim>\<open>SyntaxError\<close>; a text
  that \<open>is_JSON\<close> admits and \<open>JSON_parse\<close> does not parse denotes a value that \<open>jsval\<close>
  cannot hold.
\<close>

fun scan_chars :: "string \<Rightarrow> string option" where
  "scan_chars [] = None"
| "scan_chars (c # cs) =
     (if c = CHR 0x22 then Some cs
      else if c = CHR 0x5C then
        (case cs of
           [] \<Rightarrow> None
         | e # r \<Rightarrow>
             if e = CHR ''u'' then
               (case r of
                  h3 # h2 # h1 # h0 # r' \<Rightarrow>
                    (case (hex_val h3, hex_val h2, hex_val h1, hex_val h0) of
                       (Some x3, Some x2, Some x1, Some x0) \<Rightarrow> scan_chars r'
                     | _ \<Rightarrow> None)
                | _ \<Rightarrow> None)
             else
               (case unescape e of
                  None \<Rightarrow> None
                | Some ch \<Rightarrow> scan_chars r))
      else if (of_char c :: nat) < 32 then None
      else scan_chars cs)"

text \<open>The digits that must follow a decimal point or an exponent mark: at least one.\<close>

definition scan_digits :: "string \<Rightarrow> string option" where
  "scan_digits s = (if takeWhile is_digit s = [] then None else Some (dropWhile is_digit s))"

definition scan_fraction :: "string \<Rightarrow> string option" where
  "scan_fraction s =
     (if s \<noteq> [] \<and> hd s = CHR ''.'' then scan_digits (tl s) else Some s)"

definition scan_exponent :: "string \<Rightarrow> string option" where
  "scan_exponent s =
     (if s \<noteq> [] \<and> hd s \<in> {CHR ''e'', CHR ''E''} then
        (let s1 = tl s;
             s2 = (if s1 \<noteq> [] \<and> hd s1 \<in> {CHR ''+'', CHR ''-''} then tl s1 else s1)
         in scan_digits s2)
      else Some s)"

definition scan_number :: "string \<Rightarrow> string option" where
  "scan_number s =
     (let neg = (s \<noteq> [] \<and> hd s = CHR ''-'');
          s1 = (if neg then tl s else s);
          ds = takeWhile is_digit s1;
          rest = dropWhile is_digit s1
      in if ds = [] then None
         else if hd ds = CHR ''0'' \<and> 1 < length ds then None
         else (case scan_fraction rest of
                 None \<Rightarrow> None
               | Some rest' \<Rightarrow> scan_exponent rest'))"

fun scan_value :: "nat \<Rightarrow> string \<Rightarrow> string option"
  and scan_elements :: "nat \<Rightarrow> string \<Rightarrow> string option"
  and scan_members :: "nat \<Rightarrow> string \<Rightarrow> string option" where
  "scan_value 0 s = None"
| "scan_value (Suc n) s =
     (case skip_ws s of
        [] \<Rightarrow> None
      | c # r \<Rightarrow>
          if c = CHR ''['' then
            (case skip_ws r of
               [] \<Rightarrow> None
             | d # r' \<Rightarrow>
                 if d = CHR '']'' then Some r'
                 else scan_elements n r)
          else if c = CHR ''{'' then
            (case skip_ws r of
               [] \<Rightarrow> None
             | d # r' \<Rightarrow>
                 if d = CHR ''}'' then Some r'
                 else scan_members n r)
          else if c = CHR 0x22 then scan_chars r
          else if c = CHR ''n'' then strip_prefix ''null'' (c # r)
          else if c = CHR ''t'' then strip_prefix ''true'' (c # r)
          else if c = CHR ''f'' then strip_prefix ''false'' (c # r)
          else if c = CHR ''-'' \<or> is_digit c then scan_number (c # r)
          else None)"
| "scan_elements 0 s = None"
| "scan_elements (Suc n) s =
     (case scan_value n s of
        None \<Rightarrow> None
      | Some r \<Rightarrow>
          (case skip_ws r of
             [] \<Rightarrow> None
           | d # r' \<Rightarrow>
               if d = CHR '','' then scan_elements n r'
               else if d = CHR '']'' then Some r'
               else None))"
| "scan_members 0 s = None"
| "scan_members (Suc n) s =
     (case skip_ws s of
        [] \<Rightarrow> None
      | q # r \<Rightarrow>
          if q \<noteq> CHR 0x22 then None
          else
            (case scan_chars r of
               None \<Rightarrow> None
             | Some r1 \<Rightarrow>
                 (case skip_ws r1 of
                    [] \<Rightarrow> None
                  | col # r2 \<Rightarrow>
                      if col \<noteq> CHR '':'' then None
                      else
                        (case scan_value n r2 of
                           None \<Rightarrow> None
                         | Some r3 \<Rightarrow>
                             (case skip_ws r3 of
                                [] \<Rightarrow> None
                              | d # r4 \<Rightarrow>
                                  if d = CHR '','' then scan_members n r4
                                  else if d = CHR ''}'' then Some r4
                                  else None)))))"

definition is_JSON :: "string \<Rightarrow> bool" where
  "is_JSON s =
     (case scan_value (Suc (length s)) s of
        None \<Rightarrow> False
      | Some r \<Rightarrow> skip_ws r = [])"

text \<open>
  A number of the runtime is a double. An integer is held exactly when its magnitude is at
  most \<^verbatim>\<open>Number.MAX_SAFE_INTEGER\<close>, which is \<open>2 ^ 53 - 1\<close>; for the numerals of such integers
  the \<open>JNum\<close> of the parser is the number that \<^verbatim>\<open>JSON.parse\<close> returns.
\<close>

fun safe_integers :: "jsval \<Rightarrow> bool"
  and safe_elements :: "jsval list \<Rightarrow> bool"
  and safe_members :: "(string \<times> jsval) list \<Rightarrow> bool" where
  "safe_integers JUndefined = True"
| "safe_integers JNull = True"
| "safe_integers (JBool b) = True"
| "safe_integers (JNum i) = (\<bar>i\<bar> \<le> 9007199254740991)"
| "safe_integers (JStr s) = True"
| "safe_integers (JArr xs) = safe_elements xs"
| "safe_integers (JObj kvs) = safe_members kvs"
| "safe_elements [] = True"
| "safe_elements (x # xs) = (safe_integers x \<and> safe_elements xs)"
| "safe_members [] = True"
| "safe_members ((k, v) # kvs) = (safe_integers v \<and> safe_members kvs)"

section \<open>The generative provider\<close>

text \<open>
  The text and image endpoints are remote services. A service function of the source
  awaits one text request at most, so it takes the outcome of that request as an
  argument; the image endpoint is a function of the position of the request in its
  batch and of the prompt sent. A theorem then holds for every behaviour of the
  provider. The prompts of the text requests are not observed by any property below
  and are built only where building them can throw.
\<close>

datatype chat_outcome =
    ChatRejected
  | ChatCompletion "string option list"

text \<open>\<open>ChatCompletion cs\<close> lists \<^verbatim>\<open>choices[i].message.content\<close>, \<open>None\<close> for \<^verbatim>\<open>null\<close>.\<close>

datatype image_outcome =
    ImageRejected
  | ImageResponse "string option list option"

text \<open>\<open>ImageResponse d\<close> is the optional \<^verbatim>\<open>data\<close> array, each image with its optional
  \<^verbatim>\<open>url\<close>.\<close>

type_synonym image_api = "nat \<Rightarrow> string \<Rightarrow> image_outcome"

text \<open>\<^verbatim>\<open>completion.choices[0].message.content\<close>\<close>

fun first_content :: "chat_outcome \<Rightarrow> error + string option" where
  "first_content ChatRejected = Inl ApiError"
| "first_content (ChatCompletion []) = Inl TypeError"
| "first_content (ChatCompletion (c # cs)) = Inr c"

text \<open>\<^verbatim>\<open>result.data?.[0]?.url\<close>\<close>

fun first_url :: "string option list option \<Rightarrow> string option" where
  "first_url None = None"
| "first_url (Some []) = None"
| "first_url (Some (u # us)) = u"

text \<open>\<^verbatim>\<open>items.map((item) => openai.images.generate({ prompt: mk(item), ... }))\<close>: the
  prompts of the requests issued, in order, and the error that stopped the map, if one
  did. A request issued before the error stays issued.\<close>

fun issue_requests :: "(jsval \<Rightarrow> error + string) \<Rightarrow> jsval list \<Rightarrow> string list \<times> error option" where
  "issue_requests mk [] = ([], None)"
| "issue_requests mk (x # xs) =
     (case mk x of
        Inl e \<Rightarrow> ([], Some e)
      | Inr p \<Rightarrow> (case issue_requests mk xs of (ps, r) \<Rightarrow> (p # ps, r)))"

definition responses :: "image_api \<Rightarrow> string list \<Rightarrow> image_outcome list" where
  "responses api prompts = map (\<lambda>(i, p). api i p) (enumerate 0 prompts)"

text \<open>\<^verbatim>\<open>await Promise.all(promises)\<close>: the results in the order of the promises, or the
  rejection when one of them rejects.\<close>

fun Promise_all :: "image_outcome list \<Rightarrow> error + string option list option list" where
  "Promise_all [] = Inr []"
| "Promise_all (ImageRejected # rs) = Inl ApiError"
| "Promise_all (ImageResponse d # rs) =
     (case Promise_all rs of Inl e \<Rightarrow> Inl e | Inr ds \<Rightarrow> Inr (d # ds))"

section \<open>Story generation and refinement\<close>

datatype log_entry =
    ConsoleWarn jsval jsval
  | ConsoleError error

text \<open>\<open>ConsoleWarn expected got\<close> is the warning of \<open>refineStory\<close>; \<open>ConsoleError e\<close> is
  the report of the error its \<^verbatim>\<open>catch\<close> block caught. Other console output is not
  modelled.\<close>

text \<open>The body of the \<^verbatim>\<open>try\<close> block of \<^verbatim>\<open>generateLinearStory\<close>.\<close>

definition generateLinearStory_try :: "chat_outcome \<Rightarrow> int \<Rightarrow> error + jsval" where
  "generateLinearStory_try completion sceneCount =
     (case first_content completion of
        Inl e \<Rightarrow> Inl e
      | Inr None \<Rightarrow> Inl (Error ''OpenAI returned an empty response.'')
      | Inr (Some content) \<Rightarrow>
          if content = [] then Inl (Error ''OpenAI returned an empty response.'')
          else
            (case JSON_parse content of
               None \<Rightarrow> Inl SyntaxError
             | Some parsedResponse \<Rightarrow>
                 (case get_prop parsedResponse ''story'' of
                    Inl e \<Rightarrow> Inl e
                  | Inr storyArray \<Rightarrow>
                      if \<not> isArray storyArray
                         \<or> get_prop storyArray ''length'' \<noteq> Inr (JNum sceneCount)
                      then Inl (Error ''AI did not return the expected story structure or scene count.'')
                      else Inr storyArray)))"

definition generateLinearStory :: "chat_outcome \<Rightarrow> string \<Rightarrow> int \<Rightarrow> error + jsval" where
  "generateLinearStory completion briefing sceneCount =
     (case generateLinearStory_try completion sceneCount of
        Inl e \<Rightarrow> Inl (Error ''Failed to generate story from AI service.'')
      | Inr storyArray \<Rightarrow> Inr storyArray)"

text \<open>The body of the \<^verbatim>\<open>try\<close> block of \<^verbatim>\<open>refineStory\<close>, with the warnings it printed.
  \<open>sceneCount\<close> is \<^verbatim>\<open>existingStory.length\<close>, read before the block.\<close>

definition refineStory_try :: "chat_outcome \<Rightarrow> jsval \<Rightarrow> (error + jsval) \<times> log_entry list" where
  "refineStory_try completion sceneCount =
     (case first_content completion of
        Inl e \<Rightarrow> (Inl e, [])
      | Inr None \<Rightarrow> (Inl (Error ''OpenAI returned an empty response during refinement.''), [])
      | Inr (Some content) \<Rightarrow>
          if content = []
          then (Inl (Error ''OpenAI returned an empty response during refinement.''), [])
          else
            (case JSON_parse content of
               None \<Rightarrow> (Inl SyntaxError, [])
             | Some parsedResponse \<Rightarrow>
                 (case get_prop parsedResponse ''story'' of
                    Inl e \<Rightarrow> (Inl e, [])
                  | Inr storyArray \<Rightarrow>
                      if \<not> isArray storyArray
                         \<or> get_prop storyArray ''length'' \<noteq> Inr sceneCount
                      then
                        (case get_prop storyArray ''length'' of
                           Inl e \<Rightarrow> (Inl e, [])
                         | Inr got \<Rightarrow> (Inr storyArray, [ConsoleWarn sceneCount got]))
                      else (Inr storyArray, []))))"

definition refineStory :: "chat_outcome \<Rightarrow> jsval \<Rightarrow> string \<Rightarrow> (error + jsval) \<times> log_entry list" where
  "refineStory completion existingStory refinementPrompt =
     (case get_prop existingStory ''length'' of
        Inl e \<Rightarrow> (Inl e, [])
      | Inr sceneCount \<Rightarrow>
          (case refineStory_try completion sceneCount of
             (Inl e, log) \<Rightarrow>
               (Inl (Error ''Failed to refine story from AI service.''), log @ [ConsoleError e])
           | (Inr storyArray, log) \<Rightarrow> (Inr storyArray, log)))"

section \<open>Art style suggestion\<close>

text \<open>\<^verbatim>\<open>buildPrompt\<close> reads four properties of the first scene into a template.\<close>

definition buildPrompt :: "jsval \<Rightarrow> error + string" where
  "buildPrompt firstScene =
     and_then (and_then (get_prop firstScene ''narrator'') to_string) (\<lambda>narrator.
     and_then (and_then (get_prop firstScene ''character'') to_string) (\<lambda>character.
     and_then (and_then (get_prop firstScene ''characterImagePrompt'') to_string) (\<lambda>characterImagePrompt.
     and_then (and_then (get_prop firstScene ''backgroundPrompt'') to_string) (\<lambda>backgroundPrompt.
       Inr (''\<newline>    Based on the following scene context, please generate three distinct art style proposals.\<newline>\<newline>    [SCENE CONTEXT]:\<newline>    ''
            @ ''\<newline>    - Setting: '' @ narrator
            @ ''\<newline>    - Character in Scene: '' @ character
            @ ''\<newline>    - Character Details: '' @ characterImagePrompt
            @ ''\<newline>    - Background Details: '' @ backgroundPrompt
            @ ''\<newline>    '' @ ''\<newline>    '')))))"

definition generateStylePrompts :: "chat_outcome \<Rightarrow> jsval \<Rightarrow> error + jsval list" where
  "generateStylePrompts completion firstScene =
     (case buildPrompt firstScene of
        Inl e \<Rightarrow> Inl e
      | Inr prompt \<Rightarrow>
          (case first_content completion of
             Inl e \<Rightarrow> Inl e
           | Inr None \<Rightarrow> Inl (Error ''OpenAI returned an empty response for art styles.'')
           | Inr (Some content) \<Rightarrow>
               if content = [] then Inl (Error ''OpenAI returned an empty response for art styles.'')
               else
                 (case JSON_parse content of
                    None \<Rightarrow> Inl SyntaxError
                  | Some parsedResponse \<Rightarrow>
                      (case get_prop parsedResponse ''artStyles'' of
                         Inl e \<Rightarrow> Inl e
                       | Inr (JArr styles) \<Rightarrow>
                           if length styles \<noteq> 3
                           then Inl (Error ''AI did not return exactly three art style suggestions.'')
                           else Inr styles
                       | Inr other \<Rightarrow>
                           Inl (Error ''AI did not return exactly three art style suggestions.'')))))"

text \<open>The prompt of the preview image of one style.\<close>

definition fullImagePrompt :: "jsval \<Rightarrow> jsval \<Rightarrow> error + string" where
  "fullImagePrompt firstScene style =
     and_then (and_then (get_prop firstScene ''characterImagePrompt'') to_string) (\<lambda>character.
     and_then (and_then (get_prop style ''imagePrompt'') to_string) (\<lambda>imagePrompt.
       Inr (character @ '', '' @ imagePrompt)))"

text \<open>Step 3 of \<^verbatim>\<open>suggestStyles\<close>: \<^verbatim>\<open>stylePrompts.map((style, index) => ...)\<close> over the
  image results.\<close>

fun finalSuggestions :: "jsval list \<Rightarrow> string option list option list \<Rightarrow> error + jsval list" where
  "finalSuggestions [] results = Inr []"
| "finalSuggestions (style # styles) [] = Inl TypeError"
| "finalSuggestions (style # styles) (r # results) =
     (case first_url r of
        None \<Rightarrow>
          and_then (and_then (get_prop style ''name'') to_string) (\<lambda>name.
            Inl (Error (''DALL-E did not return an image URL for style: '' @ name)))
      | Some imageUrl \<Rightarrow>
          if imageUrl = [] then
            and_then (and_then (get_prop style ''name'') to_string) (\<lambda>name.
              Inl (Error (''DALL-E did not return an image URL for style: '' @ name)))
          else
            (case finalSuggestions styles results of
               Inl e \<Rightarrow> Inl e
             | Inr rest \<Rightarrow>
                 Inr (JObj (set_prop (own_props style) ''imageUrl'' (JStr imageUrl)) # rest)))"

text \<open>The result, and the prompts of the image requests issued.\<close>

definition suggestStyles :: "image_api \<Rightarrow> chat_outcome \<Rightarrow> jsval \<Rightarrow> (error + jsval) \<times> string list" where
  "suggestStyles api completion firstScene =
     (case generateStylePrompts completion firstScene of
        Inl e \<Rightarrow> (Inl e, [])
      | Inr stylePrompts \<Rightarrow>
          (case issue_requests (fullImagePrompt firstScene) stylePrompts of
             (prompts, Some e) \<Rightarrow> (Inl e, prompts)
           | (prompts, None) \<Rightarrow>
               (case Promise_all (responses api prompts) of
                  Inl e \<Rightarrow> (Inl e, prompts)
                | Inr imageResults \<Rightarrow>
                    (case finalSuggestions stylePrompts imageResults of
                       Inl e \<Rightarrow> (Inl e, prompts)
                     | Inr suggestions \<Rightarrow> (Inr (JArr suggestions), prompts)))))"

section \<open>Final illustration\<close>

definition createConsistencyPrompt :: "chat_outcome \<Rightarrow> string \<Rightarrow> error + string" where
  "createConsistencyPrompt completion imageUrl =
     (case first_content completion of
        Inl e \<Rightarrow> Inl e
      | Inr None \<Rightarrow> Inl (Error ''GPT-4o failed to generate a consistency prompt from the image.'')
      | Inr (Some newPrompt) \<Rightarrow>
          if newPrompt = []
          then Inl (Error ''GPT-4o failed to generate a consistency prompt from the image.'')
          else Inr (trim newPrompt))"

definition finalPrompt :: "string \<Rightarrow> jsval \<Rightarrow> error + string" where
  "finalPrompt consistencyPrompt scene =
     and_then (and_then (get_prop scene ''narrator'') to_string) (\<lambda>narrator.
     and_then (and_then (get_prop scene ''character'') to_string) (\<lambda>character.
     and_then (and_then (get_prop scene ''dialogue'') to_string) (\<lambda>dialogue.
       Inr (consistencyPrompt @ ''. The scene is: \"'' @ narrator
            @ ''\". The character is '' @ character
            @ '' and they are saying \"'' @ dialogue @ ''\".''))))"

text \<open>\<^verbatim>\<open>scenes.map((scene, index) => ...)\<close> over the image results.\<close>

fun finalizedScenes :: "jsval list \<Rightarrow> string option list option list \<Rightarrow> error + jsval list" where
  "finalizedScenes [] results = Inr []"
| "finalizedScenes (scene # scenes) [] = Inl TypeError"
| "finalizedScenes (scene # scenes) (r # results) =
     (case first_url r of
        None \<Rightarrow>
          and_then (and_then (get_prop scene ''id'') to_string) (\<lambda>ident.
            Inl (Error (''DALL-E failed to generate image for scene '' @ ident)))
      | Some imageUrl \<Rightarrow>
          if imageUrl = [] then
            and_then (and_then (get_prop scene ''id'') to_string) (\<lambda>ident.
              Inl (Error (''DALL-E failed to generate image for scene '' @ ident)))
          else
            (case finalizedScenes scenes results of
               Inl e \<Rightarrow> Inl e
             | Inr rest \<Rightarrow>
                 Inr (JObj (set_prop
                             (set_prop (own_props scene) ''characterImagePrompt'' (JStr imageUrl))
                             ''backgroundPrompt'' (JStr [])) # rest)))"

text \<open>The result, and the prompts of the image requests issued. \<^verbatim>\<open>scenes.map\<close> on a
  value that is not an array throws.\<close>

definition generateFinalImages ::
  "image_api \<Rightarrow> chat_outcome \<Rightarrow> jsval \<Rightarrow> string \<Rightarrow> (error + jsval) \<times> string list" where
  "generateFinalImages api completion scenes referenceImageUrl =
     (case createConsistencyPrompt completion referenceImageUrl of
        Inl e \<Rightarrow> (Inl e, [])
      | Inr consistencyPrompt \<Rightarrow>
          (case scenes of
             JArr sceneList \<Rightarrow>
               (case issue_requests (finalPrompt consistencyPrompt) sceneList of
                  (prompts, Some e) \<Rightarrow> (Inl e, prompts)
                | (prompts, None) \<Rightarrow>
                    (case Promise_all (responses api prompts) of
                       Inl e \<Rightarrow> (Inl e, prompts)
                     | Inr imageResults \<Rightarrow>
                         (case finalizedScenes sceneList imageResults of
                            Inl e \<Rightarrow> (Inl e, prompts)
                          | Inr finalized \<Rightarrow> (Inr (JArr finalized), prompts))))
           | other \<Rightarrow> (Inl TypeError, [])))"

section \<open>The session model\<close>

text \<open>The interface \<^verbatim>\<open>StoryScene\<close>, and the value a scene of that type is at run time.\<close>

record StoryScene =
  scene_id :: int
  narrator :: string
  character :: string
  characterImagePrompt :: string
  dialogue :: string
  backgroundPrompt :: string

definition scene_value :: "StoryScene \<Rightarrow> jsval" where
  "scene_value s =
     JObj [(''id'', JNum (scene_id s)),
           (''narrator'', JStr (narrator s)),
           (''character'', JStr (character s)),
           (''characterImagePrompt'', JStr (characterImagePrompt s)),
           (''dialogue'', JStr (dialogue s)),
           (''backgroundPrompt'', JStr (backgroundPrompt s))]"

definition scenes_value :: "StoryScene list \<Rightarrow> jsval" where
  "scenes_value ss = JArr (map scene_value ss)"

text \<open>The column \<^verbatim>\<open>currentStoryState\<close>:
  \<^verbatim>\<open>prepare: (value) => (value ? JSON.stringify(value) : null)\<close> and
  \<^verbatim>\<open>consume: (value) => (value ? JSON.parse(value) : null)\<close>.
  \<open>None\<close> is the \<^verbatim>\<open>null\<close> of the database.\<close>

definition prepare :: "jsval \<Rightarrow> string option" where
  "prepare v = (if truthy v then JSON_stringify v else None)"

definition consume :: "string option \<Rightarrow> error + jsval" where
  "consume t =
     (case t of
        None \<Rightarrow> Inr JNull
      | Some s \<Rightarrow>
          if s = [] then Inr JNull
          else (case JSON_parse s of None \<Rightarrow> Inl SyntaxError | Some v \<Rightarrow> Inr v))"

text \<open>A row of the table \<^verbatim>\<open>story_sessions\<close> of the migration (sqlite keeps the JSON
  column as text; every column written here is \<^verbatim>\<open>notNullable\<close>, and \<^verbatim>\<open>uuid\<close> is
  \<^verbatim>\<open>unique\<close>), and the model instance in memory.\<close>

record story_sessions_row =
  row_id :: nat
  row_uuid :: string
  initial_briefing :: string
  scene_count :: int
  current_story_state :: string
  created_at :: nat
  updated_at :: nat

record StorySession =
  ident :: nat
  uuid :: string
  initialBriefing :: string
  sceneCount :: int
  currentStoryState :: jsval
  createdAt :: nat
  updatedAt :: nat

type_synonym db = "story_sessions_row list"

text \<open>What a request finds outside the program: the outcome of the text request its
  stage awaits, the image endpoint, the clock, the value of \<^verbatim>\<open>randomUUID()\<close> and the
  validator's rule for URLs.\<close>

record env =
  chat :: chat_outcome
  images :: image_api
  now :: nat
  randomUUID :: string
  isURL :: "string \<Rightarrow> bool"

text \<open>The hook \<^verbatim>\<open>@beforeCreate generateUuid\<close>; \<open>None\<close> is a \<^verbatim>\<open>uuid\<close> not yet set.\<close>

definition generateUuid :: "string \<Rightarrow> string option \<Rightarrow> string" where
  "generateUuid fresh u =
     (case u of None \<Rightarrow> fresh | Some s \<Rightarrow> if s = [] then fresh else s)"

definition next_id :: "db \<Rightarrow> nat" where
  "next_id d = Suc (fold max (map row_id d) 0)"

text \<open>\<^verbatim>\<open>StorySession.create\<close>: the hook runs, the columns are prepared, the row is
  inserted.\<close>

definition StorySession_create ::
  "env \<Rightarrow> string option \<Rightarrow> string \<Rightarrow> int \<Rightarrow> jsval \<Rightarrow> db \<Rightarrow> (error + StorySession) \<times> db" where
  "StorySession_create e u b n story d =
     (let new_uuid = generateUuid (randomUUID e) u in
      case prepare story of
        None \<Rightarrow> (Inl DatabaseError, d)
      | Some text \<Rightarrow>
          if new_uuid \<in> set (map row_uuid d) then (Inl DatabaseError, d)
          else
            (Inr \<lparr>ident = next_id d, uuid = new_uuid, initialBriefing = b, sceneCount = n,
                  currentStoryState = story, createdAt = now e, updatedAt = now e\<rparr>,
             d @ [\<lparr>row_id = next_id d, row_uuid = new_uuid, initial_briefing = b,
                   scene_count = n, current_story_state = text,
                   created_at = now e, updated_at = now e\<rparr>]))"

text \<open>\<^verbatim>\<open>StorySession.findByOrFail('uuid', value)\<close>\<close>

definition findByOrFail :: "db \<Rightarrow> string \<Rightarrow> error + StorySession" where
  "findByOrFail d u =
     (case List.find (\<lambda>r. row_uuid r = u) d of
        None \<Rightarrow> Inl RowNotFound
      | Some r \<Rightarrow>
          (case consume (Some (current_story_state r)) of
             Inl e \<Rightarrow> Inl e
           | Inr story \<Rightarrow>
               Inr \<lparr>ident = row_id r, uuid = row_uuid r, initialBriefing = initial_briefing r,
                    sceneCount = scene_count r, currentStoryState = story,
                    createdAt = created_at r, updatedAt = updated_at r\<rparr>))"

text \<open>\<^verbatim>\<open>session.save()\<close> on a persisted instance writes its attributes to the row of its
  primary key and sets \<^verbatim>\<open>updatedAt\<close>. (The library leaves the row as it is when no
  attribute differs from the loaded one; the properties below do not depend on it.)\<close>

definition write_row :: "nat \<Rightarrow> StorySession \<Rightarrow> string \<Rightarrow> story_sessions_row \<Rightarrow> story_sessions_row" where
  "write_row t s text r =
     (if row_id r = ident s
      then r\<lparr>row_uuid := uuid s, initial_briefing := initialBriefing s,
             scene_count := sceneCount s, current_story_state := text, updated_at := t\<rparr>
      else r)"

definition StorySession_save :: "env \<Rightarrow> StorySession \<Rightarrow> db \<Rightarrow> (error + StorySession) \<times> db" where
  "StorySession_save e s d =
     (case prepare (currentStoryState s) of
        None \<Rightarrow> (Inl DatabaseError, d)
      | Some text \<Rightarrow> (Inr (s\<lparr>updatedAt := now e\<rparr>), map (write_row (now e) s text) d))"

section \<open>Controllers\<close>

datatype response =
    Created string jsval
  | Ok string jsval
  | OkSession StorySession

text \<open>\<^verbatim>\<open>StoryGeneratorController.store\<close>: validate, generate, create the session.\<close>

definition StoryGeneratorController_store ::
  "env \<Rightarrow> string \<Rightarrow> int \<Rightarrow> db \<Rightarrow> (error + response) \<times> db" where
  "StoryGeneratorController_store e b n d =
     (if \<not> (10 \<le> length b \<and> 2 \<le> n \<and> n \<le> 10) then (Inl ValidationError, d)
      else
        (case generateLinearStory (chat e) b n of
           Inl err \<Rightarrow> (Inl err, d)
         | Inr initialStory \<Rightarrow>
             (case StorySession_create e None b n initialStory d of
                (Inl err, d') \<Rightarrow> (Inl err, d')
              | (Inr session, d') \<Rightarrow>
                  (Inr (Created (uuid session) (currentStoryState session)), d'))))"

text \<open>\<^verbatim>\<open>StoryGeneratorController.update\<close>: find, validate, refine, save.\<close>

definition StoryGeneratorController_update ::
  "env \<Rightarrow> string \<Rightarrow> string \<Rightarrow> db \<Rightarrow> (error + response) \<times> db" where
  "StoryGeneratorController_update e u prompt d =
     (case findByOrFail d u of
        Inl err \<Rightarrow> (Inl err, d)
      | Inr session \<Rightarrow>
          if length prompt < 5 then (Inl ValidationError, d)
          else
            (case refineStory (chat e) (currentStoryState session) prompt of
               (Inl err, log) \<Rightarrow> (Inl err, d)
             | (Inr refinedStory, log) \<Rightarrow>
                 (case StorySession_save e (session\<lparr>currentStoryState := refinedStory\<rparr>) d of
                    (Inl err, d') \<Rightarrow> (Inl err, d')
                  | (Inr saved, d') \<Rightarrow>
                      (Inr (Ok (uuid saved) (currentStoryState saved)), d'))))"

text \<open>\<^verbatim>\<open>FinalStoriesController.store\<close>: find, validate, illustrate, save.\<close>

definition FinalStoriesController_store ::
  "env \<Rightarrow> string \<Rightarrow> string \<Rightarrow> db \<Rightarrow> (error + response) \<times> db" where
  "FinalStoriesController_store e u referenceImageUrl d =
     (case findByOrFail d u of
        Inl err \<Rightarrow> (Inl err, d)
      | Inr session \<Rightarrow>
          if \<not> isURL e referenceImageUrl then (Inl ValidationError, d)
          else
            (case generateFinalImages (images e) (chat e) (currentStoryState session)
                    referenceImageUrl of
               (Inl err, calls) \<Rightarrow> (Inl err, d)
             | (Inr finalizedStoryState, calls) \<Rightarrow>
                 (case StorySession_save e (session\<lparr>currentStoryState := finalizedStoryState\<rparr>) d of
                    (Inl err, d') \<Rightarrow> (Inl err, d')
                  | (Inr saved, d') \<Rightarrow> (Inr (OkSession saved), d'))))"

section \<open>Auxiliary notions\<close>

text \<open>\<open>has_url d u\<close>: the test \<^verbatim>\<open>!imageUrl\<close> is false on the response \<open>d\<close>, whose URL is
  \<open>u\<close>.\<close>

definition has_url :: "string option list option \<Rightarrow> string \<Rightarrow> bool" where
  "has_url d u = (first_url d = Some u \<and> u \<noteq> [])"

text \<open>A property name that is neither \<^verbatim>\<open>length\<close> nor an array index.\<close>

definition named_key :: "string \<Rightarrow> bool" where
  "named_key k = (k \<noteq> ''length'' \<and> (\<exists>c\<in>set k. \<not> is_digit c))"

text \<open>What may follow a serialized value inside an array or an object.\<close>

definition ok_rest :: "string \<Rightarrow> bool" where
  "ok_rest rest = (rest = [] \<or> hd rest \<in> {CHR '','', CHR '']'', CHR ''}''})"

text \<open>The first character of a serialized value decides the parser's branch.\<close>

definition starts_value :: "string \<Rightarrow> bool" where
  "starts_value s = (s \<noteq> [] \<and> \<not> is_ws (hd s) \<and> hd s \<noteq> CHR '']'' \<and> hd s \<noteq> CHR ''}'')"

section \<open>Example data\<close>

definition example_story :: "StoryScene list" where
  "example_story =
     [\<lparr>scene_id = 1, narrator = ''Dawn.'', character = ''Robot'',
       characterImagePrompt = ''a small robot'', dialogue = ''Hello.'',
       backgroundPrompt = ''a garden''\<rparr>,
      \<lparr>scene_id = 2, narrator = ''Dusk.'', character = ''Robot'',
       characterImagePrompt = ''a small robot'', dialogue = ''Bye.'',
       backgroundPrompt = ''a dead planet''\<rparr>]"

definition example_images :: image_api where
  "example_images = (\<lambda>i p. ImageResponse (Some [Some (''https://img.example/'' @ show_nat i)]))"

definition example_db :: db where
  "example_db =
     [\<lparr>row_id = 1, row_uuid = ''6f1c'', initial_briefing = ''A lonely robot finds a garden.'',
       scene_count = 2, current_story_state = stringify_value (scenes_value example_story),
       created_at = 10, updated_at = 10\<rparr>]"

definition example_env :: "chat_outcome \<Rightarrow> env" where
  "example_env c =
     \<lparr>chat = c, images = example_images, now = 20, randomUUID = ''9a2e'',
      isURL = (\<lambda>s. take 8 s = ''https://'')\<rparr>"

definition example_styles :: string where
  "example_styles = ''{\"artStyles\":[{\"name\":\"Noir\",\"description\":\"dark\",\"imagePrompt\":\"film noir\"},{\"name\":\"Pastel\",\"description\":\"soft\",\"imagePrompt\":\"pastel chalk\"},{\"name\":\"Pixel\",\"description\":\"retro\",\"imagePrompt\":\"pixel art\"}]}''"

definition example_empty_db :: db where
  "example_empty_db = [(example_db ! 0)\<lparr>current_story_state := ''[]''\<rparr>]"


section \<open>Serializing and parsing are inverse\<close>

lemma skip_ws_Cons: "\<not> is_ws c \<Longrightarrow> skip_ws (c # s) = c # s"
  by (simp add: skip_ws_def)

lemma hex_val_hex_digit: "d < 16 \<Longrightarrow> hex_val (hex_digit d) = Some d"
  by (auto simp: hex_val_def hex_digit_def Let_def)

lemma hex_val_zero: "hex_val (CHR ''0'') = Some 0"
  by (simp add: hex_val_def)

lemma char_split16: "char_of (16 * ((of_char c :: nat) div 16) + (of_char c :: nat) mod 16) = c"
  by simp

lemma parse_chars_quote_char:
  "parse_chars (quote_char c @ s) = cons_fst c (parse_chars s)"
proof -
  have m: "(of_char c :: nat) mod 16 < 16" by simp
  consider (a) "c = CHR 0x08" | (b) "c = CHR 0x09" | (c) "c = CHR 0x0A" | (d) "c = CHR 0x0C"
    | (e) "c = CHR 0x0D" | (f) "c = CHR 0x22" | (g) "c = CHR 0x5C"
    | (h) "c \<notin> {CHR 0x08, CHR 0x09, CHR 0x0A, CHR 0x0C, CHR 0x0D, CHR 0x22, CHR 0x5C}" "(of_char c :: nat) < 32"
    | (i) "c \<notin> {CHR 0x08, CHR 0x09, CHR 0x0A, CHR 0x0C, CHR 0x0D, CHR 0x22, CHR 0x5C}" "\<not> (of_char c :: nat) < 32"
    by blast
  then show ?thesis
  proof cases
    case h
    have d: "(of_char c :: nat) div 16 < 16" using h(2) by simp
    show ?thesis using h
      by (simp add: quote_char_def hex_val_hex_digit[OF d] hex_val_hex_digit[OF m] hex_val_zero char_split16)
  next
    case i
    then show ?thesis by (simp add: quote_char_def)
  qed (simp_all add: quote_char_def unescape_def)
qed

lemma parse_chars_quoted:
  "parse_chars (concat (map quote_char s) @ CHR 0x22 # rest) = Some (s, rest)"
  by (induction s) (simp_all add: parse_chars_quote_char cons_fst_def)

lemma is_digit_digit: "(d::nat) < 10 \<Longrightarrow> is_digit (char_of (48 + d))"
  by (simp add: is_digit_def)

lemma show_nat_digits: "c \<in> set (show_nat n) \<Longrightarrow> is_digit c"
proof (induction n rule: show_nat.induct)
  case (1 n)
  show ?case
  proof (cases "n < 10")
    case True
    with "1.prems" show ?thesis
      by (simp add: show_nat.simps[of n] is_digit_digit)
  next
    case False
    have "n mod 10 < 10" by simp
    with False "1.prems" "1.IH" show ?thesis
      by (auto simp: show_nat.simps[of n] intro: is_digit_digit)
  qed
qed

lemma show_nat_nonempty: "show_nat n \<noteq> []"
  by (subst show_nat.simps) simp

lemma digits_val_snoc: "digits_val (ds @ [c]) = 10 * digits_val ds + (of_char c - 48)"
  by (simp add: digits_val_def)

lemma digits_val_show_nat: "digits_val (show_nat n) = n"
proof (induction n rule: show_nat.induct)
  case (1 n)
  show ?case
  proof (cases "n < 10")
    case True
    then show ?thesis
      by (simp add: show_nat.simps[of n] digits_val_def)
  next
    case False
    have "n mod 10 < 10" by simp
    then have "(of_char (char_of (48 + n mod 10) :: char) :: nat) - 48 = n mod 10"
      by simp
    with False "1.IH" show ?thesis
      by (simp add: show_nat.simps[of n] digits_val_snoc)
  qed
qed

lemma hd_show_nat_zero: "hd (show_nat n) = CHR ''0'' \<Longrightarrow> n = 0"
proof (induction n rule: show_nat.induct)
  case (1 n)
  show ?case
  proof (cases "n < 10")
    case True
    with "1.prems" have "char_of (48 + n) = CHR ''0''"
      by (simp add: show_nat.simps[of n])
    then have "(of_char (char_of (48 + n) :: char) :: nat) = of_char (CHR ''0'')"
      by simp
    with True show ?thesis by simp
  next
    case False
    with "1.prems" have "hd (show_nat (n div 10)) = CHR ''0''"
      by (simp add: show_nat.simps[of n] show_nat_nonempty)
    with False "1.IH" have "n div 10 = 0" by simp
    with False show ?thesis by simp
  qed
qed

lemma show_nat_zero: "show_nat 0 = ''0''"
  by (simp add: show_nat.simps[of 0] char_of_eq_iff)

lemma ok_rest_not_digit: "ok_rest rest \<Longrightarrow> rest \<noteq> [] \<Longrightarrow> \<not> is_digit (hd rest)"
  by (auto simp: ok_rest_def is_digit_def)

lemma takeWhile_digits:
  assumes "ok_rest rest"
  shows "takeWhile is_digit (show_nat n @ rest) = show_nat n"
    and "dropWhile is_digit (show_nat n @ rest) = rest"
proof -
  have t: "takeWhile is_digit rest = []" and d: "dropWhile is_digit rest = rest"
    using ok_rest_not_digit[OF assms] by (cases rest; simp)+
  show "takeWhile is_digit (show_nat n @ rest) = show_nat n"
    using t by (simp add: takeWhile_append2 show_nat_digits)
  show "dropWhile is_digit (show_nat n @ rest) = rest"
    using d by (simp add: dropWhile_append2 show_nat_digits)
qed

lemma parse_number_nat:
  assumes "ok_rest rest"
  shows "parse_number (show_nat n @ rest) = Some (JNum (int n), rest)"
proof -
  obtain c cs where cs: "show_nat n = c # cs"
    using show_nat_nonempty[of n] by (cases "show_nat n") auto
  have dig: "is_digit c" using show_nat_digits[of c n] cs by simp
  then have neg: "c \<noteq> CHR ''-''" by (auto simp: is_digit_def)
  have lead: "hd (show_nat n) = CHR ''0'' \<Longrightarrow> length (show_nat n) = 1"
    using hd_show_nat_zero[of n] by (auto simp: show_nat_zero)
  have r: "rest = [] \<or> (hd rest \<noteq> CHR ''.'' \<and> hd rest \<noteq> CHR ''e'' \<and> hd rest \<noteq> CHR ''E'')"
    using assms by (auto simp: ok_rest_def)
  have "parse_number (c # cs @ rest) = Some (JNum (int n), rest)"
    using dig neg lead r takeWhile_digits[OF assms, of n] show_nat_nonempty[of n]
    unfolding parse_number_def cs
    by (simp add: Let_def digits_val_show_nat[of n, unfolded cs])
  then show ?thesis by (simp add: cs)
qed

lemma parse_number_int:
  assumes "ok_rest rest"
  shows "parse_number (show_int i @ rest) = Some (JNum i, rest)"
proof (cases "i < 0")
  case True
  have lead: "hd (show_nat (nat (- i))) = CHR ''0'' \<Longrightarrow> length (show_nat (nat (- i))) = 1"
    using hd_show_nat_zero[of "nat (- i)"] by (auto simp: show_nat_zero)
  have r: "rest = [] \<or> (hd rest \<noteq> CHR ''.'' \<and> hd rest \<noteq> CHR ''e'' \<and> hd rest \<noteq> CHR ''E'')"
    using assms by (auto simp: ok_rest_def)
  show ?thesis
    using True lead r takeWhile_digits[OF assms, of "nat (- i)"] show_nat_nonempty[of "nat (- i)"]
    by (simp add: parse_number_def show_int_def Let_def digits_val_show_nat)
next
  case False
  then show ?thesis
    using parse_number_nat[OF assms, of "nat i"] by (simp add: show_int_def)
qed

lemma set_prop_fresh: "k \<notin> fst ` set kvs \<Longrightarrow> set_prop kvs k v = kvs @ [(k, v)]"
  by (induction kvs) auto

lemma foldl_set_prop_distinct:
  "distinct (map fst (acc @ kvs)) \<Longrightarrow>
   foldl (\<lambda>acc (k, v). set_prop acc k v) acc kvs = acc @ kvs"
proof (induction kvs arbitrary: acc)
  case Nil
  then show ?case by simp
next
  case (Cons kv kvs)
  obtain k v where kv: "kv = (k, v)" by (cases kv)
  from Cons.prems have fresh: "k \<notin> fst ` set acc" by (auto simp: kv)
  from Cons.prems have d: "distinct (map fst ((acc @ [(k, v)]) @ kvs))" by (simp add: kv)
  show ?case
    using Cons.IH[OF d] by (simp add: kv set_prop_fresh[OF fresh])
qed

lemma object_of_distinct: "distinct (map fst kvs) \<Longrightarrow> object_of kvs = JObj kvs"
  using foldl_set_prop_distinct[of "[]" kvs] by (simp add: object_of_def)

lemma show_int_head:
  obtains c cs where "show_int i = c # cs" "c = CHR ''-'' \<or> is_digit c"
proof (cases "i < 0")
  case True
  then show ?thesis using that by (simp add: show_int_def)
next
  case False
  obtain c cs where cs: "show_nat (nat i) = c # cs"
    using show_nat_nonempty[of "nat i"] by (cases "show_nat (nat i)") auto
  then have "is_digit c" using show_nat_digits[of c "nat i"] by simp
  with False cs show ?thesis using that by (simp add: show_int_def)
qed

lemma starts_value_stringify: "starts_value (stringify_value v)"
proof (cases v)
  case (JNum i)
  obtain c cs where "show_int i = c # cs" "c = CHR ''-'' \<or> is_digit c"
    by (rule show_int_head)
  then show ?thesis using JNum
    by (auto simp: starts_value_def is_ws_def is_digit_def)
qed (auto simp: starts_value_def is_ws_def quote_def)

lemma stringify_value_nonempty: "stringify_value v \<noteq> []"
  using starts_value_stringify[of v] by (simp add: starts_value_def)

lemma skip_ws_starts: "starts_value s \<Longrightarrow> skip_ws (s @ t) = s @ t"
  by (cases s) (auto simp: starts_value_def skip_ws_def)

lemma parse_value_num:
  assumes "ok_rest rest"
  shows "parse_value (Suc n) (show_int i @ rest) = Some (JNum i, rest)"
proof -
  obtain c cs where cs: "show_int i = c # cs" and c: "c = CHR ''-'' \<or> is_digit c"
    by (rule show_int_head)
  have nws: "\<not> is_ws c" using c by (auto simp: is_ws_def is_digit_def)
  have ne: "c \<noteq> CHR ''[''" "c \<noteq> CHR ''{''" "c \<noteq> CHR 0x22" "c \<noteq> CHR ''n''"
    "c \<noteq> CHR ''t''" "c \<noteq> CHR ''f''"
    using c by (auto simp: is_digit_def)
  have "parse_value (Suc n) (c # cs @ rest) = parse_number (c # cs @ rest)"
    using c ne by (simp add: skip_ws_Cons[OF nws])
  then show ?thesis
    using parse_number_int[OF assms, of i] by (simp add: cs)
qed

lemma parse_value_str:
  "parse_value (Suc n) (quote s @ rest) = Some (JStr s, rest)"
  by (simp add: quote_def skip_ws_Cons is_ws_def parse_chars_quoted)

lemma parse_value_atoms:
  "parse_value (Suc n) (''null'' @ rest) = Some (JNull, rest)"
  "parse_value (Suc n) (''true'' @ rest) = Some (JBool True, rest)"
  "parse_value (Suc n) (''false'' @ rest) = Some (JBool False, rest)"
  by (simp_all add: skip_ws_Cons is_ws_def parse_literal_def)

lemma ok_rest_simps: "ok_rest []" "ok_rest (CHR '','' # s)" "ok_rest (CHR '']'' # s)" "ok_rest (CHR ''}'' # s)"
  by (simp_all add: ok_rest_def)

lemma skip_ws_sep:
  "skip_ws (CHR '','' # s) = CHR '','' # s"
  "skip_ws (CHR '']'' # s) = CHR '']'' # s"
  "skip_ws (CHR ''}'' # s) = CHR ''}'' # s"
  "skip_ws (CHR '':'' # s) = CHR '':'' # s"
  "skip_ws (CHR 0x22 # s) = CHR 0x22 # s"
  by (simp_all add: skip_ws_Cons is_ws_def)

lemma parse_roundtrip_aux:
  "wf_json v \<Longrightarrow> ok_rest rest \<Longrightarrow> length (stringify_value v) \<le> n \<Longrightarrow>
     parse_value n (stringify_value v @ rest) = Some (v, rest)"
  "xs \<noteq> [] \<Longrightarrow> wf_elements xs \<Longrightarrow> ok_rest rest \<Longrightarrow>
     length (join '','' (stringify_elements xs)) < n \<Longrightarrow>
     parse_elements n (join '','' (stringify_elements xs) @ CHR '']'' # rest) = Some (xs, rest)"
  "kvs \<noteq> [] \<Longrightarrow> wf_members kvs \<Longrightarrow> ok_rest rest \<Longrightarrow>
     length (join '','' (stringify_members kvs)) < n \<Longrightarrow>
     parse_members n (join '','' (stringify_members kvs) @ CHR ''}'' # rest) = Some (kvs, rest)"
proof (induction v and xs and kvs arbitrary: n rest and n rest and n rest
    rule: stringify_value_stringify_elements_stringify_members.induct)
  case 1
  then show ?case by simp
next
  case 2
  then obtain m where "n = Suc m" by (cases n) auto
  then show ?case using parse_value_atoms(1)[of m rest] by simp
next
  case (3 b)
  then obtain m where "n = Suc m" by (cases n) (auto split: if_splits)
  then show ?case using parse_value_atoms(2,3)[of m rest] by simp
next
  case (4 i)
  then obtain m where "n = Suc m"
    using stringify_value_nonempty[of "JNum i"] by (cases n) auto
  then show ?case using parse_value_num[OF "4.prems"(2), of m i] by simp
next
  case (5 s)
  then obtain m where "n = Suc m" by (cases n) (auto simp: quote_def)
  then show ?case using parse_value_str[of m s rest] by simp
next
  case (6 xs)
  then obtain m where n: "n = Suc m" by (cases n) auto
  show ?case
  proof (cases xs)
    case Nil
    then show ?thesis by (simp add: n skip_ws_sep skip_ws_Cons is_ws_def)
  next
    case (Cons y ys)
    let ?body = "join '','' (stringify_elements xs)"
    have len: "length ?body < m" using "6.prems"(3) by (simp add: n)
    have wf: "wf_elements xs" using "6.prems"(1) by simp
    have ne: "xs \<noteq> []" using Cons by simp
    have st: "starts_value ?body"
      using starts_value_stringify[of y] Cons
      by (cases ys) (auto simp: starts_value_def)
    then obtain c cs where body: "?body = c # cs" "\<not> is_ws c" "c \<noteq> CHR '']''"
      by (cases ?body) (auto simp: starts_value_def)
    have "parse_value (Suc m) (CHR ''['' # ?body @ CHR '']'' # rest)
          = map_option (\<lambda>(xs, t). (JArr xs, t)) (parse_elements m (?body @ CHR '']'' # rest))"
      using body by (simp add: skip_ws_Cons is_ws_def)
    then show ?thesis
      using "6.IH"[OF ne wf "6.prems"(2) len] by (simp add: n)
  qed
next
  case (7 kvs)
  then obtain m where n: "n = Suc m" by (cases n) auto
  show ?case
  proof (cases kvs)
    case Nil
    then show ?thesis by (simp add: n skip_ws_sep skip_ws_Cons is_ws_def)
  next
    case (Cons kv kvs')
    obtain k v where kv: "kv = (k, v)" by (cases kv)
    let ?body = "join '','' (stringify_members kvs)"
    have len: "length ?body < m" using "7.prems"(3) by (simp add: n)
    have wf: "wf_members kvs" and d: "distinct (map fst kvs)" using "7.prems"(1) by simp_all
    have ne: "kvs \<noteq> []" using Cons by simp
    have v: "v \<noteq> JUndefined" using wf Cons kv by auto
    have "\<exists>cs. ?body = CHR 0x22 # cs"
      using Cons kv v by (cases "stringify_members kvs'") (auto simp: quote_def)
    then obtain cs where body: "?body = CHR 0x22 # cs" by blast
    have "parse_value (Suc m) (CHR ''{'' # ?body @ CHR ''}'' # rest)
          = map_option (\<lambda>(kvs, t). (object_of kvs, t)) (parse_members m (?body @ CHR ''}'' # rest))"
      using body by (simp add: skip_ws_Cons is_ws_def)
    then show ?thesis
      using "7.IH"[OF ne wf "7.prems"(2) len] by (simp add: n object_of_distinct[OF d])
  qed
next
  case 8
  then show ?case by simp
next
  case (9 x xs)
  then obtain m where n: "n = Suc m" by (cases n) auto
  have wfx: "wf_json x" and wfxs: "wf_elements xs" using "9.prems"(2) by simp_all
  show ?case
  proof (cases xs)
    case Nil
    have len: "length (stringify_value x) \<le> m" using "9.prems"(4) Nil by (simp add: n)
    show ?thesis
      using "9.IH"(1)[OF wfx ok_rest_simps(3), of m rest] len Nil
      by (simp add: n skip_ws_sep)
  next
    case (Cons y ys)
    let ?tail = "join '','' (stringify_elements xs)"
    have j: "join '','' (stringify_elements (x # xs)) = stringify_value x @ CHR '','' # ?tail"
      using Cons by simp
    have len: "length (stringify_value x) \<le> m" and len2: "length ?tail < m"
      using "9.prems"(4) stringify_value_nonempty[of x] unfolding j
      by (auto simp: n Suc_le_eq neq_Nil_conv)
    have ne: "xs \<noteq> []" using Cons by simp
    show ?thesis
      using "9.IH"(1)[OF wfx ok_rest_simps(2), of m "?tail @ CHR '']'' # rest"] len
        "9.IH"(2)[OF ne wfxs "9.prems"(3) len2]
      unfolding j by (simp add: n skip_ws_sep cons_fst_def)
  qed
next
  case 10
  then show ?case by simp
next
  case (11 k v kvs)
  then obtain m where n: "n = Suc m" by (cases n) auto
  have wfv: "wf_json v" and wfkvs: "wf_members kvs" using "11.prems"(2) by simp_all
  have v: "v \<noteq> JUndefined" using wfv by auto
  let ?val = "stringify_value v"
  have key: "\<And>t. parse_chars (concat (map quote_char k) @ CHR 0x22 # t) = Some (k, t)"
    by (rule parse_chars_quoted)
  show ?case
  proof (cases kvs)
    case Nil
    have len: "length ?val \<le> m" using "11.prems"(4) Nil v by (simp add: n)
    show ?thesis
      using "11.IH"(2)[OF v wfv ok_rest_simps(4), of m rest] len Nil v
      by (simp add: n skip_ws_sep quote_def key skip_ws_starts[OF starts_value_stringify])
  next
    case (Cons kv' kvs')
    obtain k' v' where kv': "kv' = (k', v')" by (cases kv')
    have v': "v' \<noteq> JUndefined" using wfkvs Cons kv' by auto
    let ?tail = "join '','' (stringify_members kvs)"
    have sm: "stringify_members kvs \<noteq> []" using Cons kv' v' by simp
    then obtain e es where es: "stringify_members kvs = e # es" by (cases "stringify_members kvs") auto
    have j: "join '','' (stringify_members ((k, v) # kvs))
             = quote k @ CHR '':'' # ?val @ CHR '','' # ?tail"
      using v es by simp
    have len: "length ?val \<le> m" and len2: "length ?tail < m"
      using "11.prems"(4) unfolding j by (auto simp: n quote_def)
    have ne: "kvs \<noteq> []" using Cons by simp
    show ?thesis
      using "11.IH"(2)[OF v wfv ok_rest_simps(2), of m "?tail @ CHR ''}'' # rest"] len
        "11.IH"(3)[OF v ne wfkvs "11.prems"(3) len2]
      unfolding j
      by (simp add: n skip_ws_sep quote_def key cons_fst_def
          skip_ws_starts[OF starts_value_stringify])
  qed
qed

lemma JSON_roundtrip:
  assumes "wf_json v"
  shows "JSON_parse (stringify_value v) = Some v"
  using parse_roundtrip_aux(1)[OF assms ok_rest_simps(1), of "Suc (length (stringify_value v))"]
  by (simp add: JSON_parse_def skip_ws_def)

subsection \<open>Parsed values are well formed\<close>














subsection \<open>The fuel of the parser is enough\<close>

lemma skip_ws_length: "length (skip_ws s) \<le> length s"
  by (simp add: skip_ws_def length_dropWhile_le)

lemma skip_ws_Cons_length: "skip_ws s = c # r \<Longrightarrow> length r < length s"
  using skip_ws_length[of s] by simp

lemma parse_chars_shorter: "parse_chars s = Some (str, r) \<Longrightarrow> length r < length s"
proof (induction "length s" arbitrary: s str r rule: less_induct)
  case less
  from less.prems obtain c cs where s: "s = c # cs" by (cases s) auto
  have sub: "\<And>x t. length t \<le> length cs \<Longrightarrow> cons_fst x (parse_chars t) = Some (str, r)
               \<Longrightarrow> length r < length s"
  proof -
    fix x t assume t: "length t \<le> length cs" and p: "cons_fst x (parse_chars t) = Some (str, r)"
    from p obtain str' where "parse_chars t = Some (str', r)"
      by (auto simp: cons_fst_def split: option.splits)
    from less.hyps[OF _ this] t show "length r < length s" by (simp add: s)
  qed
  show ?case
  proof (cases "c = CHR 0x22")
    case True
    then show ?thesis using less.prems by (simp add: s)
  next
    case q: False
    show ?thesis
    proof (cases "c = CHR 0x5C")
      case True
      then obtain e r0 where cs: "cs = e # r0" using less.prems q by (cases cs) (auto simp: s)
      show ?thesis
      proof (cases "e = CHR ''u''")
        case True
        then obtain h3 h2 h1 h0 r' where r0: "r0 = h3 # h2 # h1 # h0 # r'"
          using less.prems q \<open>c = CHR 0x5C\<close> cs
          by (auto simp: s split: list.splits)
        from less.prems q \<open>c = CHR 0x5C\<close> cs True r0
        obtain x where "cons_fst x (parse_chars r') = Some (str, r)"
          by (auto simp: s split: option.splits if_splits)
        from sub[OF _ this] show ?thesis by (simp add: cs r0)
      next
        case False
        from less.prems q \<open>c = CHR 0x5C\<close> cs False
        obtain ch where "cons_fst ch (parse_chars r0) = Some (str, r)"
          by (auto simp: s split: option.splits)
        from sub[OF _ this] show ?thesis by (simp add: cs)
      qed
    next
      case False
      from less.prems q False have "cons_fst c (parse_chars cs) = Some (str, r)"
        by (auto simp: s split: if_splits)
      from sub[OF _ this] show ?thesis by simp
    qed
  qed
qed

lemma strip_prefix_length: "strip_prefix p s = Some r \<Longrightarrow> length s = length p + length r"
  by (induction p s rule: strip_prefix.induct) (auto split: if_splits)

lemma parse_literal_shorter:
  "word \<noteq> [] \<Longrightarrow> parse_literal word w s = Some (v, r) \<Longrightarrow> length r < length s"
  by (auto simp: parse_literal_def dest: strip_prefix_length)

lemma length_takeWhile_dropWhile: "length (takeWhile P xs) + length (dropWhile P xs) = length xs"
  by (induction xs) auto

lemma parse_number_shorter: "parse_number s = Some (v, r) \<Longrightarrow> length r < length s"
proof -
  assume a: "parse_number s = Some (v, r)"
  define s1 where "s1 = (if s \<noteq> [] \<and> hd s = CHR ''-'' then tl s else s)"
  from a have ne: "takeWhile is_digit s1 \<noteq> []" and r: "r = dropWhile is_digit s1"
    by (auto simp: parse_number_def Let_def s1_def split: if_splits)
  have "length r < length s1"
    using length_takeWhile_dropWhile[of is_digit s1] ne r by (cases "takeWhile is_digit s1") auto
  moreover have "length s1 \<le> length s" by (simp add: s1_def)
  ultimately show ?thesis by simp
qed

text \<open>What a successful call did, by the kind of value.\<close>

lemma parse_value_Suc_cases:
  assumes "parse_value (Suc m) s = Some (v, r0)"
  obtains
    (atom) "length r0 < length s" "\<And>n. parse_value (Suc n) s = Some (v, r0)"
  | (arr) r where "parse_elements m r \<noteq> None" "length r < length s"
      "\<And>n. parse_value (Suc n) s = map_option (\<lambda>(xs, t). (JArr xs, t)) (parse_elements n r)"
  | (obj) r where "parse_members m r \<noteq> None" "length r < length s"
      "\<And>n. parse_value (Suc n) s = map_option (\<lambda>(kvs, t). (object_of kvs, t)) (parse_members n r)"
proof (cases "skip_ws s")
  case Nil
  then show ?thesis using assms by simp
next
  case (Cons c r)
  note s = Cons
  have lr: "length r < length s" using skip_ws_Cons_length[OF s] .
  show ?thesis
  proof (cases "c = CHR ''[''")
    case True
    show ?thesis
    proof (cases "skip_ws r")
      case Nil
      then show ?thesis using assms s True by simp
    next
      case (Cons d r')
      show ?thesis
      proof (cases "d = CHR '']''")
        case True
        have "length r' < length r" using skip_ws_Cons_length[OF Cons] .
        then show ?thesis using assms s \<open>c = CHR ''[''\<close> Cons True lr atom by simp
      next
        case False
        show ?thesis
        proof (rule arr[of r])
          show "parse_elements m r \<noteq> None"
            using assms s \<open>c = CHR ''[''\<close> Cons False by auto
          show "length r < length s" by (rule lr)
          show "\<And>n. parse_value (Suc n) s
                  = map_option (\<lambda>(xs, t). (JArr xs, t)) (parse_elements n r)"
            using s \<open>c = CHR ''[''\<close> Cons False by simp
        qed
      qed
    qed
  next
    case nb: False
    show ?thesis
    proof (cases "c = CHR ''{''")
      case True
      show ?thesis
      proof (cases "skip_ws r")
        case Nil
        then show ?thesis using assms s True by simp
      next
        case (Cons d r')
        show ?thesis
        proof (cases "d = CHR ''}''")
          case True
          have "length r' < length r" using skip_ws_Cons_length[OF Cons] .
          then show ?thesis using assms s \<open>c = CHR ''{''\<close> Cons True lr atom by simp
        next
          case False
          show ?thesis
          proof (rule obj[of r])
            show "parse_members m r \<noteq> None"
              using assms s \<open>c = CHR ''{''\<close> Cons False by auto
            show "length r < length s" by (rule lr)
            show "\<And>n. parse_value (Suc n) s
                    = map_option (\<lambda>(kvs, t). (object_of kvs, t)) (parse_members n r)"
              using s \<open>c = CHR ''{''\<close> Cons False by simp
          qed
        qed
      qed
    next
      case False
      have t: "length (c # r) \<le> length s" using skip_ws_length[of s] s by simp
      have "length r0 < length s"
        using assms s nb False t
          parse_chars_shorter[of r _ r0] parse_number_shorter[of "c # r" v r0]
          parse_literal_shorter[of "''null''" JNull "c # r" v r0]
          parse_literal_shorter[of "''true''" "JBool True" "c # r" v r0]
          parse_literal_shorter[of "''false''" "JBool False" "c # r" v r0]
        by (auto split: if_splits)
      then show ?thesis using assms s nb False atom by simp
    qed
  qed
qed

lemma parse_elements_Suc_cases:
  assumes "parse_elements (Suc m) s = Some (vs, r0)"
  obtains
    (last) v r1 where "parse_value m s = Some (v, r1)" "length r0 < length r1"
      "\<And>n. parse_value n s = Some (v, r1) \<Longrightarrow> parse_elements (Suc n) s = Some (vs, r0)"
  | (more) v r1 r2 vs' where "parse_value m s = Some (v, r1)" "length r2 < length r1"
      "parse_elements m r2 = Some (vs', r0)"
      "\<And>n. parse_value n s = Some (v, r1) \<Longrightarrow> parse_elements n r2 = Some (vs', r0)
            \<Longrightarrow> parse_elements (Suc n) s = Some (vs, r0)"
proof -
  from assms obtain v r1 where v: "parse_value m s = Some (v, r1)"
    by (auto split: option.splits)
  from assms v obtain d r2 where d: "skip_ws r1 = d # r2"
    by (auto split: list.splits)
  have l: "length r2 < length r1" using skip_ws_Cons_length[OF d] .
  show ?thesis
  proof (cases "d = CHR '',''")
    case True
    from assms v d True obtain vs' where e: "parse_elements m r2 = Some (vs', r0)"
      and vs: "vs = v # vs'"
      by (auto simp: cons_fst_def split: option.splits)
    show ?thesis
      by (rule more[OF v l e]) (simp add: d True vs cons_fst_def)
  next
    case False
    with assms v d have c: "d = CHR '']''" and r: "r0 = r2" and vs: "vs = [v]"
      by (auto split: if_splits)
    show ?thesis
      by (rule last[OF v]) (use l r in simp, simp add: d c r vs)
  qed
qed

lemma parse_members_Suc_cases:
  assumes "parse_members (Suc m) s = Some (kvs, r0)"
  obtains
    (last) v r2 r3 where "length r2 < length s" "parse_value m r2 = Some (v, r3)"
      "length r0 < length r3"
      "\<And>n. parse_value n r2 = Some (v, r3) \<Longrightarrow> parse_members (Suc n) s = Some (kvs, r0)"
  | (more) v r2 r3 r4 kvs' where "length r2 < length s" "parse_value m r2 = Some (v, r3)"
      "length r4 < length r3" "parse_members m r4 = Some (kvs', r0)"
      "\<And>n. parse_value n r2 = Some (v, r3) \<Longrightarrow> parse_members n r4 = Some (kvs', r0)
            \<Longrightarrow> parse_members (Suc n) s = Some (kvs, r0)"
proof -
  from assms obtain r where q: "skip_ws s = CHR 0x22 # r"
    by (auto split: list.splits if_splits)
  from assms q obtain k r1 where k: "parse_chars r = Some (k, r1)"
    by (auto split: option.splits)
  from assms q k obtain r2 where c: "skip_ws r1 = CHR '':'' # r2"
    by (auto split: list.splits if_splits)
  from assms q k c obtain v r3 where v: "parse_value m r2 = Some (v, r3)"
    by (auto split: option.splits)
  from assms q k c v obtain d r4 where d: "skip_ws r3 = d # r4"
    by (auto split: list.splits)
  have l2: "length r2 < length s"
    using skip_ws_Cons_length[OF q] parse_chars_shorter[OF k] skip_ws_Cons_length[OF c] by simp
  have l4: "length r4 < length r3" using skip_ws_Cons_length[OF d] .
  show ?thesis
  proof (cases "d = CHR '',''")
    case True
    from assms q k c v d True obtain kvs' where e: "parse_members m r4 = Some (kvs', r0)"
      and kvs: "kvs = (k, v) # kvs'"
      by (auto simp: cons_fst_def split: option.splits)
    show ?thesis
      by (rule more[OF l2 v l4 e]) (simp add: q k c d True kvs cons_fst_def)
  next
    case False
    with assms q k c v d have e: "d = CHR ''}''" and r: "r0 = r4" and kvs: "kvs = [(k, v)]"
      by (auto split: if_splits)
    show ?thesis
      by (rule last[OF l2 v]) (use l4 r in simp, simp add: q k c d e r kvs)
  qed
qed

lemma parse_fuel:
  "parse_value m s = Some (v, r) \<Longrightarrow>
     length r < length s \<and> (\<forall>n\<ge>length s - length r. parse_value n s = Some (v, r))"
  "parse_elements m s = Some (vs, r) \<Longrightarrow>
     length r < length s \<and> (\<forall>n\<ge>length s - length r. parse_elements n s = Some (vs, r))"
  "parse_members m s = Some (kvs, r) \<Longrightarrow>
     length r < length s \<and> (\<forall>n\<ge>length s - length r. parse_members n s = Some (kvs, r))"
proof (induction m arbitrary: s v r vs kvs)
  case 0
  { case 1 then show ?case by simp }
  { case 2 then show ?case by simp }
  { case 3 then show ?case by simp }
next
  case (Suc m)
  { case 1
    from "1" show ?case
    proof (cases rule: parse_value_Suc_cases)
      case atom
      have "\<And>n. length s - length r \<le> n \<Longrightarrow> parse_value n s = Some (v, r)"
      proof -
        fix n assume "length s - length r \<le> n"
        then obtain n' where "n = Suc n'" using atom(1) by (cases n) auto
        then show "parse_value n s = Some (v, r)" using atom(2) by simp
      qed
      then show ?thesis using atom(1) by blast
    next
      case (arr t)
      from arr(1) obtain xs r' where e: "parse_elements m t = Some (xs, r')" by auto
      from "1" arr(3)[of m] e have v: "v = JArr xs" and r: "r' = r" by auto
      note ih = Suc(2)[OF e[unfolded r]]
      have "\<And>n. length s - length r \<le> n \<Longrightarrow> parse_value n s = Some (v, r)"
      proof -
        fix n assume n: "length s - length r \<le> n"
        then obtain n' where n': "n = Suc n'" using ih arr(2) by (cases n) auto
        have "length t - length r \<le> n'" using n n' arr(2) conjunct1[OF ih] by linarith
        then have "parse_elements n' t = Some (xs, r)" using ih by blast
        then show "parse_value n s = Some (v, r)" using arr(3)[of n'] n' v by simp
      qed
      then show ?thesis using ih arr(2) by auto
    next
      case (obj t)
      from obj(1) obtain ms r' where e: "parse_members m t = Some (ms, r')" by auto
      from "1" obj(3)[of m] e have v: "v = object_of ms" and r: "r' = r" by auto
      note ih = Suc(3)[OF e[unfolded r]]
      have "\<And>n. length s - length r \<le> n \<Longrightarrow> parse_value n s = Some (v, r)"
      proof -
        fix n assume n: "length s - length r \<le> n"
        then obtain n' where n': "n = Suc n'" using ih obj(2) by (cases n) auto
        have "length t - length r \<le> n'" using n n' obj(2) conjunct1[OF ih] by linarith
        then have "parse_members n' t = Some (ms, r)" using ih by blast
        then show "parse_value n s = Some (v, r)" using obj(3)[of n'] n' v by simp
      qed
      then show ?thesis using ih obj(2) by auto
    qed }
  { case 2
    from "2" show ?case
    proof (cases rule: parse_elements_Suc_cases)
      case (last x r1)
      note ih = Suc(1)[OF last(1)]
      have "\<And>n. length s - length r \<le> n \<Longrightarrow> parse_elements n s = Some (vs, r)"
      proof -
        fix n assume n: "length s - length r \<le> n"
        then obtain n' where n': "n = Suc n'" using ih last(2) by (cases n) auto
        have "length s - length r1 \<le> n'" using n n' last(2) conjunct1[OF ih] by linarith
        then have "parse_value n' s = Some (x, r1)" using ih by blast
        then show "parse_elements n s = Some (vs, r)" using last(3) n' by simp
      qed
      then show ?thesis using ih last(2) by auto
    next
      case (more x r1 r2 vs')
      note ih1 = Suc(1)[OF more(1)]
      note ih2 = Suc(2)[OF more(3)]
      have "\<And>n. length s - length r \<le> n \<Longrightarrow> parse_elements n s = Some (vs, r)"
      proof -
        fix n assume n: "length s - length r \<le> n"
        then obtain n' where n': "n = Suc n'" using ih1 ih2 more(2) by (cases n) auto
        have "length s - length r1 \<le> n'" "length r2 - length r \<le> n'"
          using n n' more(2) conjunct1[OF ih1] conjunct1[OF ih2] by linarith+
        then have "parse_value n' s = Some (x, r1)" "parse_elements n' r2 = Some (vs', r)"
          using ih1 ih2 by blast+
        then show "parse_elements n s = Some (vs, r)" using more(4) n' by simp
      qed
      then show ?thesis using ih1 ih2 more(2) by auto
    qed }
  { case 3
    from "3" show ?case
    proof (cases rule: parse_members_Suc_cases)
      case (last x r2 r3)
      note ih = Suc(1)[OF last(2)]
      have "\<And>n. length s - length r \<le> n \<Longrightarrow> parse_members n s = Some (kvs, r)"
      proof -
        fix n assume n: "length s - length r \<le> n"
        then obtain n' where n': "n = Suc n'" using ih last(1,3) by (cases n) auto
        have "length r2 - length r3 \<le> n'" using n n' last(1,3) conjunct1[OF ih] by linarith
        then have "parse_value n' r2 = Some (x, r3)" using ih by blast
        then show "parse_members n s = Some (kvs, r)" using last(4) n' by simp
      qed
      then show ?thesis using ih last(1,3) by auto
    next
      case (more x r2 r3 r4 kvs')
      note ih1 = Suc(1)[OF more(2)]
      note ih2 = Suc(3)[OF more(4)]
      have "\<And>n. length s - length r \<le> n \<Longrightarrow> parse_members n s = Some (kvs, r)"
      proof -
        fix n assume n: "length s - length r \<le> n"
        then obtain n' where n': "n = Suc n'" using ih1 ih2 more(1,3) by (cases n) auto
        have "length r2 - length r3 \<le> n'" "length r4 - length r \<le> n'"
          using n n' more(1,3) conjunct1[OF ih1] conjunct1[OF ih2] by linarith+
        then have "parse_value n' r2 = Some (x, r3)" "parse_members n' r4 = Some (kvs', r)"
          using ih1 ih2 by blast+
        then show "parse_members n s = Some (kvs, r)" using more(5) n' by simp
      qed
      then show ?thesis using ih1 ih2 more(1,3) by auto
    qed }
qed

text \<open>If any amount of fuel parses the whole text, \<open>JSON_parse\<close> does.\<close>

lemma JSON_parse_enough_fuel:
  assumes "parse_value m s = Some (v, r)" and "skip_ws r = []"
  shows "JSON_parse s = Some v"
proof -
  have "length s - length r \<le> Suc (length s)" by simp
  with parse_fuel(1)[OF assms(1)] have "parse_value (Suc (length s)) s = Some (v, r)"
    by blast
  then show ?thesis using assms(2) by (simp add: JSON_parse_def del: parse_value.simps)
qed

subsection \<open>The grammar admits what the parser parses\<close>









subsection \<open>The fuel of the recognizer is enough\<close>

lemma scan_chars_shorter: "scan_chars s = Some r \<Longrightarrow> length r < length s"
proof (induction "length s" arbitrary: s r rule: less_induct)
  case less
  from less.prems obtain c cs where s: "s = c # cs" by (cases s) auto
  have sub: "\<And>t. length t \<le> length cs \<Longrightarrow> scan_chars t = Some r \<Longrightarrow> length r < length s"
  proof -
    fix t assume t: "length t \<le> length cs" and p: "scan_chars t = Some r"
    from less.hyps[OF _ p] t show "length r < length s" by (simp add: s)
  qed
  show ?case
  proof (cases "c = CHR 0x22")
    case True
    then show ?thesis using less.prems by (simp add: s)
  next
    case q: False
    show ?thesis
    proof (cases "c = CHR 0x5C")
      case True
      then obtain e r0 where cs: "cs = e # r0" using less.prems q by (cases cs) (auto simp: s)
      show ?thesis
      proof (cases "e = CHR ''u''")
        case True
        then obtain h3 h2 h1 h0 r' where r0: "r0 = h3 # h2 # h1 # h0 # r'"
          using less.prems q \<open>c = CHR 0x5C\<close> cs
          by (auto simp: s split: list.splits)
        from less.prems q \<open>c = CHR 0x5C\<close> cs True r0
        have "scan_chars r' = Some r"
          by (auto simp: s split: option.splits if_splits)
        from sub[OF _ this] show ?thesis by (simp add: cs r0)
      next
        case False
        from less.prems q \<open>c = CHR 0x5C\<close> cs False
        have "scan_chars r0 = Some r"
          by (auto simp: s split: option.splits)
        from sub[OF _ this] show ?thesis by (simp add: cs)
      qed
    next
      case False
      from less.prems q False have "scan_chars cs = Some r"
        by (auto simp: s split: if_splits)
      from sub[OF _ this] show ?thesis by simp
    qed
  qed
qed

lemma scan_digits_length: "scan_digits s = Some r \<Longrightarrow> length r \<le> length s"
  by (auto simp: scan_digits_def length_dropWhile_le split: if_splits)

lemma scan_fraction_length: "scan_fraction s = Some r \<Longrightarrow> length r \<le> length s"
proof -
  assume a: "scan_fraction s = Some r"
  show ?thesis
  proof (cases "s \<noteq> [] \<and> hd s = CHR ''.''")
    case True
    then have "scan_digits (tl s) = Some r" using a by (simp add: scan_fraction_def)
    from scan_digits_length[OF this] show ?thesis by simp
  next
    case False
    then show ?thesis using a by (auto simp: scan_fraction_def)
  qed
qed

lemma scan_exponent_length: "scan_exponent s = Some r \<Longrightarrow> length r \<le> length s"
proof -
  assume a: "scan_exponent s = Some r"
  show ?thesis
  proof (cases "s \<noteq> [] \<and> hd s \<in> {CHR ''e'', CHR ''E''}")
    case True
    define s2 where "s2 = (if tl s \<noteq> [] \<and> hd (tl s) \<in> {CHR ''+'', CHR ''-''} then tl (tl s) else tl s)"
    have "scan_exponent s = scan_digits s2"
      unfolding scan_exponent_def Let_def s2_def using True by simp
    then have "scan_digits s2 = Some r" using a by simp
    from scan_digits_length[OF this] have "length r \<le> length s2" .
    moreover have "length s2 \<le> length s" by (simp add: s2_def)
    ultimately show ?thesis by simp
  next
    case False
    then show ?thesis using a by (auto simp: scan_exponent_def)
  qed
qed

lemma scan_number_shorter: "scan_number s = Some r \<Longrightarrow> length r < length s"
proof -
  assume a: "scan_number s = Some r"
  define s1 where "s1 = (if s \<noteq> [] \<and> hd s = CHR ''-'' then tl s else s)"
  define ds where "ds = takeWhile is_digit s1"
  define rest where "rest = dropWhile is_digit s1"
  have q: "scan_number s =
             (if ds = [] then None
              else if hd ds = CHR ''0'' \<and> 1 < length ds then None
              else (case scan_fraction rest of None \<Rightarrow> None | Some rest' \<Rightarrow> scan_exponent rest'))"
    unfolding scan_number_def Let_def s1_def ds_def rest_def ..
  from a q have ne: "ds \<noteq> []" by (auto split: if_splits)
  from a q obtain rest' where f: "scan_fraction rest = Some rest'" and e: "scan_exponent rest' = Some r"
    by (auto split: if_splits option.splits)
  have "length rest < length s1"
    using length_takeWhile_dropWhile[of is_digit s1] ne by (cases ds) (auto simp: ds_def rest_def)
  moreover have "length s1 \<le> length s" by (simp add: s1_def)
  ultimately show ?thesis using scan_fraction_length[OF f] scan_exponent_length[OF e] by simp
qed

text \<open>What a successful call did, by the kind of value.\<close>

lemma scan_value_Suc_cases:
  assumes "scan_value (Suc m) s = Some r0"
  obtains
    (atom) "length r0 < length s" "\<And>n. scan_value (Suc n) s = Some r0"
  | (arr) r where "scan_elements m r \<noteq> None" "length r < length s"
      "\<And>n. scan_value (Suc n) s = scan_elements n r"
  | (obj) r where "scan_members m r \<noteq> None" "length r < length s"
      "\<And>n. scan_value (Suc n) s = scan_members n r"
proof (cases "skip_ws s")
  case Nil
  then show ?thesis using assms by simp
next
  case (Cons c r)
  note s = Cons
  have lr: "length r < length s" using skip_ws_Cons_length[OF s] .
  show ?thesis
  proof (cases "c = CHR ''[''")
    case True
    show ?thesis
    proof (cases "skip_ws r")
      case Nil
      then show ?thesis using assms s True by simp
    next
      case (Cons d r')
      show ?thesis
      proof (cases "d = CHR '']''")
        case True
        have "length r' < length r" using skip_ws_Cons_length[OF Cons] .
        then show ?thesis using assms s \<open>c = CHR ''[''\<close> Cons True lr atom by simp
      next
        case False
        show ?thesis
        proof (rule arr[of r])
          show "scan_elements m r \<noteq> None"
            using assms s \<open>c = CHR ''[''\<close> Cons False by auto
          show "length r < length s" by (rule lr)
          show "\<And>n. scan_value (Suc n) s = scan_elements n r"
            using s \<open>c = CHR ''[''\<close> Cons False by simp
        qed
      qed
    qed
  next
    case nb: False
    show ?thesis
    proof (cases "c = CHR ''{''")
      case True
      show ?thesis
      proof (cases "skip_ws r")
        case Nil
        then show ?thesis using assms s True by simp
      next
        case (Cons d r')
        show ?thesis
        proof (cases "d = CHR ''}''")
          case True
          have "length r' < length r" using skip_ws_Cons_length[OF Cons] .
          then show ?thesis using assms s \<open>c = CHR ''{''\<close> Cons True lr atom by simp
        next
          case False
          show ?thesis
          proof (rule obj[of r])
            show "scan_members m r \<noteq> None"
              using assms s \<open>c = CHR ''{''\<close> Cons False by auto
            show "length r < length s" by (rule lr)
            show "\<And>n. scan_value (Suc n) s = scan_members n r"
              using s \<open>c = CHR ''{''\<close> Cons False by simp
          qed
        qed
      qed
    next
      case False
      have t: "length (c # r) \<le> length s" using skip_ws_length[of s] s by simp
      have "length r0 < length s"
        using assms s nb False t
          scan_chars_shorter[of r r0] scan_number_shorter[of "c # r" r0]
          strip_prefix_length[of "''null''" "c # r" r0]
          strip_prefix_length[of "''true''" "c # r" r0]
          strip_prefix_length[of "''false''" "c # r" r0]
        by (auto split: if_splits)
      then show ?thesis using assms s nb False atom by simp
    qed
  qed
qed

lemma scan_elements_Suc_cases:
  assumes "scan_elements (Suc m) s = Some r0"
  obtains
    (last) r1 where "scan_value m s = Some r1" "length r0 < length r1"
      "\<And>n. scan_value n s = Some r1 \<Longrightarrow> scan_elements (Suc n) s = Some r0"
  | (more) r1 r2 where "scan_value m s = Some r1" "length r2 < length r1"
      "scan_elements m r2 = Some r0"
      "\<And>n. scan_value n s = Some r1 \<Longrightarrow> scan_elements n r2 = Some r0
            \<Longrightarrow> scan_elements (Suc n) s = Some r0"
proof -
  from assms obtain r1 where v: "scan_value m s = Some r1"
    by (auto split: option.splits)
  from assms v obtain d r2 where d: "skip_ws r1 = d # r2"
    by (auto split: list.splits)
  have l: "length r2 < length r1" using skip_ws_Cons_length[OF d] .
  show ?thesis
  proof (cases "d = CHR '',''")
    case True
    from assms v d True have e: "scan_elements m r2 = Some r0"
      by auto
    show ?thesis
      by (rule more[OF v l e]) (simp add: d True)
  next
    case False
    with assms v d have c: "d = CHR '']''" and r: "r0 = r2"
      by (auto split: if_splits)
    show ?thesis
      by (rule last[OF v]) (use l r in simp, simp add: d c r)
  qed
qed

lemma scan_members_Suc_cases:
  assumes "scan_members (Suc m) s = Some r0"
  obtains
    (last) r2 r3 where "length r2 < length s" "scan_value m r2 = Some r3"
      "length r0 < length r3"
      "\<And>n. scan_value n r2 = Some r3 \<Longrightarrow> scan_members (Suc n) s = Some r0"
  | (more) r2 r3 r4 where "length r2 < length s" "scan_value m r2 = Some r3"
      "length r4 < length r3" "scan_members m r4 = Some r0"
      "\<And>n. scan_value n r2 = Some r3 \<Longrightarrow> scan_members n r4 = Some r0
            \<Longrightarrow> scan_members (Suc n) s = Some r0"
proof -
  from assms obtain r where q: "skip_ws s = CHR 0x22 # r"
    by (auto split: list.splits if_splits)
  from assms q obtain r1 where k: "scan_chars r = Some r1"
    by (auto split: option.splits)
  from assms q k obtain r2 where c: "skip_ws r1 = CHR '':'' # r2"
    by (auto split: list.splits if_splits)
  from assms q k c obtain r3 where v: "scan_value m r2 = Some r3"
    by (auto split: option.splits)
  from assms q k c v obtain d r4 where d: "skip_ws r3 = d # r4"
    by (auto split: list.splits)
  have l2: "length r2 < length s"
    using skip_ws_Cons_length[OF q] scan_chars_shorter[OF k] skip_ws_Cons_length[OF c] by simp
  have l4: "length r4 < length r3" using skip_ws_Cons_length[OF d] .
  show ?thesis
  proof (cases "d = CHR '',''")
    case True
    from assms q k c v d True have e: "scan_members m r4 = Some r0"
      by auto
    show ?thesis
      by (rule more[OF l2 v l4 e]) (simp add: q k c d True)
  next
    case False
    with assms q k c v d have e: "d = CHR ''}''" and r: "r0 = r4"
      by (auto split: if_splits)
    show ?thesis
      by (rule last[OF l2 v]) (use l4 r in simp, simp add: q k c d e r)
  qed
qed

lemma scan_fuel:
  "scan_value m s = Some r \<Longrightarrow>
     length r < length s \<and> (\<forall>n\<ge>length s - length r. scan_value n s = Some r)"
  "scan_elements m s = Some r \<Longrightarrow>
     length r < length s \<and> (\<forall>n\<ge>length s - length r. scan_elements n s = Some r)"
  "scan_members m s = Some r \<Longrightarrow>
     length r < length s \<and> (\<forall>n\<ge>length s - length r. scan_members n s = Some r)"
proof (induction m arbitrary: s r)
  case 0
  { case 1 then show ?case by simp }
  { case 2 then show ?case by simp }
  { case 3 then show ?case by simp }
next
  case (Suc m)
  { case 1
    from "1" show ?case
    proof (cases rule: scan_value_Suc_cases)
      case atom
      have "\<And>n. length s - length r \<le> n \<Longrightarrow> scan_value n s = Some r"
      proof -
        fix n assume "length s - length r \<le> n"
        then obtain n' where "n = Suc n'" using atom(1) by (cases n) auto
        then show "scan_value n s = Some r" using atom(2) by simp
      qed
      then show ?thesis using atom(1) by blast
    next
      case (arr t)
      from "1" arr(3)[of m] have e: "scan_elements m t = Some r" by simp
      note ih = Suc(2)[OF e]
      have "\<And>n. length s - length r \<le> n \<Longrightarrow> scan_value n s = Some r"
      proof -
        fix n assume n: "length s - length r \<le> n"
        then obtain n' where n': "n = Suc n'" using ih arr(2) by (cases n) auto
        have "length t - length r \<le> n'" using n n' arr(2) conjunct1[OF ih] by linarith
        then have "scan_elements n' t = Some r" using ih by blast
        then show "scan_value n s = Some r" using arr(3)[of n'] n' by simp
      qed
      then show ?thesis using ih arr(2) by auto
    next
      case (obj t)
      from "1" obj(3)[of m] have e: "scan_members m t = Some r" by simp
      note ih = Suc(3)[OF e]
      have "\<And>n. length s - length r \<le> n \<Longrightarrow> scan_value n s = Some r"
      proof -
        fix n assume n: "length s - length r \<le> n"
        then obtain n' where n': "n = Suc n'" using ih obj(2) by (cases n) auto
        have "length t - length r \<le> n'" using n n' obj(2) conjunct1[OF ih] by linarith
        then have "scan_members n' t = Some r" using ih by blast
        then show "scan_value n s = Some r" using obj(3)[of n'] n' by simp
      qed
      then show ?thesis using ih obj(2) by auto
    qed }
  { case 2
    from "2" show ?case
    proof (cases rule: scan_elements_Suc_cases)
      case (last r1)
      note ih = Suc(1)[OF last(1)]
      have "\<And>n. length s - length r \<le> n \<Longrightarrow> scan_elements n s = Some r"
      proof -
        fix n assume n: "length s - length r \<le> n"
        then obtain n' where n': "n = Suc n'" using ih last(2) by (cases n) auto
        have "length s - length r1 \<le> n'" using n n' last(2) conjunct1[OF ih] by linarith
        then have "scan_value n' s = Some r1" using ih by blast
        then show "scan_elements n s = Some r" using last(3) n' by simp
      qed
      then show ?thesis using ih last(2) by auto
    next
      case (more r1 r2)
      note ih1 = Suc(1)[OF more(1)]
      note ih2 = Suc(2)[OF more(3)]
      have "\<And>n. length s - length r \<le> n \<Longrightarrow> scan_elements n s = Some r"
      proof -
        fix n assume n: "length s - length r \<le> n"
        then obtain n' where n': "n = Suc n'" using ih1 ih2 more(2) by (cases n) auto
        have "length s - length r1 \<le> n'" "length r2 - length r \<le> n'"
          using n n' more(2) conjunct1[OF ih1] conjunct1[OF ih2] by linarith+
        then have "scan_value n' s = Some r1" "scan_elements n' r2 = Some r"
          using ih1 ih2 by blast+
        then show "scan_elements n s = Some r" using more(4) n' by simp
      qed
      then show ?thesis using ih1 ih2 more(2) by auto
    qed }
  { case 3
    from "3" show ?case
    proof (cases rule: scan_members_Suc_cases)
      case (last r2 r3)
      note ih = Suc(1)[OF last(2)]
      have "\<And>n. length s - length r \<le> n \<Longrightarrow> scan_members n s = Some r"
      proof -
        fix n assume n: "length s - length r \<le> n"
        then obtain n' where n': "n = Suc n'" using ih last(1,3) by (cases n) auto
        have "length r2 - length r3 \<le> n'" using n n' last(1,3) conjunct1[OF ih] by linarith
        then have "scan_value n' r2 = Some r3" using ih by blast
        then show "scan_members n s = Some r" using last(4) n' by simp
      qed
      then show ?thesis using ih last(1,3) by auto
    next
      case (more r2 r3 r4)
      note ih1 = Suc(1)[OF more(2)]
      note ih2 = Suc(3)[OF more(4)]
      have "\<And>n. length s - length r \<le> n \<Longrightarrow> scan_members n s = Some r"
      proof -
        fix n assume n: "length s - length r \<le> n"
        then obtain n' where n': "n = Suc n'" using ih1 ih2 more(1,3) by (cases n) auto
        have "length r2 - length r3 \<le> n'" "length r4 - length r \<le> n'"
          using n n' more(1,3) conjunct1[OF ih1] conjunct1[OF ih2] by linarith+
        then have "scan_value n' r2 = Some r3" "scan_members n' r4 = Some r"
          using ih1 ih2 by blast+
        then show "scan_members n s = Some r" using more(5) n' by simp
      qed
      then show ?thesis using ih1 ih2 more(1,3) by auto
    qed }
qed

text \<open>If any amount of fuel scans the whole text, \<open>is_JSON\<close> holds.\<close>

lemma is_JSON_enough_fuel:
  assumes "scan_value n s = Some r" and "skip_ws r = []"
  shows "is_JSON s"
proof -
  have "length s - length r \<le> Suc (length s)" by simp
  then have "scan_value (Suc (length s)) s = Some r"
    using scan_fuel(1)[OF assms(1)] by blast
  then show ?thesis using assms(2) by (simp add: is_JSON_def)
qed

text \<open>Texts with a fraction, an exponent or a code unit beyond 8 bits are admitted;
  numerals and escapes that are cut short are not.\<close>

lemma is_JSON_beyond_values:
  "is_JSON ''{\"story\":[{\"id\":1.5}]}''
   \<and> is_JSON ''[-0.25e+2, 1E3]''
   \<and> is_JSON (''[\"caf'' @ [CHR 0x5C] @ ''u00e9 '' @ [CHR 0x5C] @ ''u2019\"]'')
   \<and> \<not> is_JSON ''[1.]'' \<and> \<not> is_JSON ''[01]'' \<and> \<not> is_JSON ''[1e]'' \<and> \<not> is_JSON ''[.5]''
   \<and> \<not> is_JSON (''\"'' @ [CHR 0x5C] @ ''u20\"'')"
  by code_simp

section \<open>Values, keys and batches\<close>


lemma and_then_Inr:
  "and_then m f = Inr y \<longleftrightarrow> (\<exists>x. m = Inr x \<and> f x = Inr y)"
  by (cases m) (simp_all add: and_then_def)

lemma and_then_Inl_const:
  "and_then m (\<lambda>x. Inl (g x)) \<noteq> Inr y"
  by (cases m) (simp_all add: and_then_def)

subsection \<open>Batches of image requests\<close>


lemma issue_requests_all:
  "issue_requests mk xs = (ps, None) \<Longrightarrow> map mk xs = map Inr ps"
  by (induction xs arbitrary: ps) (auto split: sum.splits prod.splits)

lemma issue_requests_all_nth:
  assumes "issue_requests mk xs = (ps, None)"
  shows "length ps = length xs" and "i < length xs \<Longrightarrow> mk (xs ! i) = Inr (ps ! i)"
proof -
  have m: "map mk xs = map Inr ps" using assms by (rule issue_requests_all)
  show l: "length ps = length xs" using arg_cong[OF m, of length] by simp
  show "i < length xs \<Longrightarrow> mk (xs ! i) = Inr (ps ! i)"
    using arg_cong[OF m, of "\<lambda>l. l ! i"] l by simp
qed

lemma responses_nth:
  "length (responses api ps) = length ps"
  "i < length ps \<Longrightarrow> responses api ps ! i = api i (ps ! i)"
  by (simp_all add: responses_def nth_enumerate_eq)

lemma Promise_all_Inr: "Promise_all rs = Inr ds \<Longrightarrow> rs = map ImageResponse ds"
  by (induction rs arbitrary: ds rule: Promise_all.induct) (auto split: sum.splits)

lemma finalSuggestions_Inr:
  "finalSuggestions styles ds = Inr out \<Longrightarrow>
     length out = length styles \<and> length styles \<le> length ds \<and>
     (\<forall>i<length styles. \<exists>u. has_url (ds ! i) u \<and>
         out ! i = JObj (set_prop (own_props (styles ! i)) ''imageUrl'' (JStr u)))"
proof (induction styles ds arbitrary: out rule: finalSuggestions.induct)
  case (1 results)
  then show ?case by simp
next
  case (2 style styles)
  then show ?case by simp
next
  case (3 style styles r results)
  from "3.prems" obtain u rest where u: "first_url r = Some u" "u \<noteq> []"
    and rest: "finalSuggestions styles results = Inr rest"
    and out: "out = JObj (set_prop (own_props style) ''imageUrl'' (JStr u)) # rest"
    by (auto simp: and_then_Inl_const split: option.splits if_splits sum.splits)
  from "3.IH"[OF u rest] show ?case
    using u out by (auto simp: has_url_def nth_Cons split: nat.splits)
qed

lemma finalizedScenes_Inr:
  "finalizedScenes scenes ds = Inr out \<Longrightarrow>
     length out = length scenes \<and> length scenes \<le> length ds \<and>
     (\<forall>i<length scenes. \<exists>u. has_url (ds ! i) u \<and>
         out ! i = JObj (set_prop (set_prop (own_props (scenes ! i))
                                     ''characterImagePrompt'' (JStr u))
                                  ''backgroundPrompt'' (JStr [])))"
proof (induction scenes ds arbitrary: out rule: finalizedScenes.induct)
  case (1 results)
  then show ?case by simp
next
  case (2 scene scenes)
  then show ?case by simp
next
  case (3 scene scenes r results)
  from "3.prems" obtain u rest where u: "first_url r = Some u" "u \<noteq> []"
    and rest: "finalizedScenes scenes results = Inr rest"
    and out: "out = JObj (set_prop (set_prop (own_props scene)
                             ''characterImagePrompt'' (JStr u)) ''backgroundPrompt'' (JStr [])) # rest"
    by (auto simp: and_then_Inl_const split: option.splits if_splits sum.splits)
  from "3.IH"[OF u rest] show ?case
    using u out by (auto simp: has_url_def nth_Cons split: nat.splits)
qed

lemma finalSuggestions_no_url:
  "i < length styles \<Longrightarrow> length ds = length styles \<Longrightarrow> \<not> (\<exists>u. has_url (ds ! i) u) \<Longrightarrow>
     \<exists>e. finalSuggestions styles ds = Inl e"
  using finalSuggestions_Inr[of styles ds] by (cases "finalSuggestions styles ds") auto

subsection \<open>Keys that are neither an index nor the length\<close>

lemma named_key_not_index: "named_key k \<Longrightarrow> show_nat i \<noteq> k"
  using show_nat_digits[of _ i] by (auto simp: named_key_def)

lemma index_of_named: "named_key k \<Longrightarrow> index_of k n = None"
  by (simp add: index_of_def find_None_iff named_key_not_index)

lemma map_of_indexed_named:
  "named_key k \<Longrightarrow> map_of (map (\<lambda>(i, x). (show_nat i, f x)) (enumerate m xs)) k = None"
proof (induction xs arbitrary: m)
  case Nil
  then show ?case by simp
next
  case (Cons x xs)
  have "show_nat m \<noteq> k" using named_key_not_index[OF Cons.prems] .
  then show ?case using Cons.IH[OF Cons.prems, of "Suc m"] by auto
qed

lemma get_prop_own_props:
  assumes "named_key k" and "v \<noteq> JUndefined" and "v \<noteq> JNull"
  shows "get_prop v k = Inr (case map_of (own_props v) k of None \<Rightarrow> JUndefined | Some w \<Rightarrow> w)"
proof (cases v)
  case (JStr s)
  have "map_of (map (\<lambda>(i, c). (show_nat i, JStr [c])) (enumerate 0 s)) k = None"
    using map_of_indexed_named[OF assms(1), of "\<lambda>c. JStr [c]" 0 s] by simp
  then show ?thesis using JStr assms(1) index_of_named[OF assms(1)]
    by (simp add: named_key_def)
next
  case (JArr xs)
  have "map_of (map (\<lambda>(i, x). (show_nat i, x)) (enumerate 0 xs)) k = None"
    using map_of_indexed_named[OF assms(1), of "\<lambda>x. x" 0 xs] by simp
  then show ?thesis using JArr assms(1) index_of_named[OF assms(1)]
    by (simp add: named_key_def)
next
  case (JObj kvs)
  then show ?thesis by (simp split: option.splits)
qed (use assms in simp_all)

lemma map_of_set_prop:
  "map_of (set_prop kvs k v) k' = (if k' = k then Some v else map_of kvs k')"
  by (induction kvs) auto

lemma get_prop_set_prop:
  "get_prop (JObj (set_prop kvs k v)) k' =
     (if k' = k then Inr v else get_prop (JObj kvs) k')"
  by (simp add: map_of_set_prop)

lemma get_prop_copy:
  assumes "named_key k" and "v \<noteq> JUndefined" and "v \<noteq> JNull"
  shows "get_prop (JObj (own_props v)) k = get_prop v k"
  using get_prop_own_props[OF assms] by (simp split: option.splits)

lemma named_keys:
  "named_key ''id''" "named_key ''narrator''" "named_key ''character''" "named_key ''dialogue''"
  "named_key ''name''" "named_key ''description''" "named_key ''imagePrompt''"
  by (simp_all add: named_key_def is_digit_def)

subsection \<open>The stages, unfolded\<close>

lemma generateStylePrompts_three:
  "generateStylePrompts completion firstScene = Inr styles \<Longrightarrow> length styles = 3"
  unfolding generateStylePrompts_def
  by (auto split: sum.splits option.splits if_splits jsval.splits)

lemma suggestStyles_success:
  assumes "suggestStyles api completion firstScene = (Inr result, calls)"
  shows "\<exists>styles ds out.
           generateStylePrompts completion firstScene = Inr styles
         \<and> issue_requests (fullImagePrompt firstScene) styles = (calls, None)
         \<and> Promise_all (responses api calls) = Inr ds
         \<and> finalSuggestions styles ds = Inr out \<and> result = JArr out"
  using assms unfolding suggestStyles_def
  by (auto split: sum.splits option.splits prod.splits)

lemma generateFinalImages_success:
  assumes "generateFinalImages api completion scenes url = (Inr result, calls)"
  shows "\<exists>cp xs ds out.
           createConsistencyPrompt completion url = Inr cp \<and> scenes = JArr xs
         \<and> issue_requests (finalPrompt cp) xs = (calls, None)
         \<and> Promise_all (responses api calls) = Inr ds
         \<and> finalizedScenes xs ds = Inr out \<and> result = JArr out"
  using assms unfolding generateFinalImages_def
  by (auto split: sum.splits option.splits prod.splits jsval.splits)

lemma fullImagePrompt_defined:
  "fullImagePrompt firstScene style = Inr p \<Longrightarrow> style \<noteq> JUndefined \<and> style \<noteq> JNull"
  by (auto simp: fullImagePrompt_def and_then_Inr)

lemma finalPrompt_defined:
  "finalPrompt cp scene = Inr p \<Longrightarrow> scene \<noteq> JUndefined \<and> scene \<noteq> JNull"
  by (auto simp: finalPrompt_def and_then_Inr)

text \<open>The position-wise description of a successful batch.\<close>

lemma batch_join:
  assumes req: "issue_requests mk xs = (calls, None)"
    and all: "Promise_all (responses api calls) = Inr ds"
  shows "length calls = length xs" and "length ds = length xs"
    and "i < length xs \<Longrightarrow> mk (xs ! i) = Inr (calls ! i)"
    and "i < length xs \<Longrightarrow> api i (calls ! i) = ImageResponse (ds ! i)"
proof -
  show l: "length calls = length xs" using issue_requests_all_nth(1)[OF req] .
  have r: "responses api calls = map ImageResponse ds" using Promise_all_Inr[OF all] .
  show l2: "length ds = length xs"
    using arg_cong[OF r, of length] l by (simp add: responses_nth)
  show "i < length xs \<Longrightarrow> mk (xs ! i) = Inr (calls ! i)"
    using issue_requests_all_nth(2)[OF req] .
  show "i < length xs \<Longrightarrow> api i (calls ! i) = ImageResponse (ds ! i)"
    using arg_cong[OF r, of "\<lambda>l. l ! i"] l l2 by (simp add: responses_nth)
qed

section \<open>Story generation\<close>

lemma generateLinearStory_try_array:
  "generateLinearStory_try completion n = Inr story \<Longrightarrow> \<exists>xs. story = JArr xs \<and> int (length xs) = n"
  unfolding generateLinearStory_try_def
  by (cases story) (auto split: sum.splits option.splits if_splits)

text \<open>
  Claim C1. For a briefing of at least 10 characters and a scene count \<open>n\<close> from 2 to 10,
  \<open>generateLinearStory\<close> returns an array of exactly \<open>n\<close> elements or fails with the
  generation error; so the story that \<open>StoryGeneratorController_store\<close> reports has \<open>n\<close>
  elements too. The provider's answer is arbitrary.
\<close>

theorem generateLinearStory_exact_count:
  assumes "10 \<le> length briefing" and "2 \<le> n" and "n \<le> 10"
  shows "((\<exists>xs. generateLinearStory completion briefing n = Inr (JArr xs) \<and> int (length xs) = n)
          \<or> generateLinearStory completion briefing n
              = Inl (Error ''Failed to generate story from AI service.''))
         \<and> (\<forall>u story d'.
               StoryGeneratorController_store e briefing n d = (Inr (Created u story), d')
               \<longrightarrow> (\<exists>xs. story = JArr xs \<and> int (length xs) = n))"
proof -
  have svc: "\<And>c story. generateLinearStory c briefing n = Inr story
                 \<Longrightarrow> \<exists>xs. story = JArr xs \<and> int (length xs) = n"
    using generateLinearStory_try_array
    by (auto simp: generateLinearStory_def split: sum.splits)
  have a: "(\<exists>xs. generateLinearStory completion briefing n = Inr (JArr xs) \<and> int (length xs) = n)
          \<or> generateLinearStory completion briefing n
              = Inl (Error ''Failed to generate story from AI service.'')"
  proof (cases "generateLinearStory_try completion n")
    case (Inl err)
    then show ?thesis by (simp add: generateLinearStory_def)
  next
    case (Inr story)
    then show ?thesis
      using generateLinearStory_try_array[OF Inr] by (auto simp: generateLinearStory_def)
  qed
  have b: "\<forall>u story d'.
               StoryGeneratorController_store e briefing n d = (Inr (Created u story), d')
               \<longrightarrow> (\<exists>xs. story = JArr xs \<and> int (length xs) = n)"
    using svc[of "chat e"]
    by (auto simp: StoryGeneratorController_store_def StorySession_create_def Let_def
             split: if_splits sum.splits option.splits prod.splits)
  show ?thesis using a b by blast
qed

theorem generateLinearStory_exact_count_witness:
  "10 \<le> length ''A lonely robot finds a garden.'' \<and> (2::int) \<le> 2 \<and> (2::int) \<le> 10
   \<and> generateLinearStory (ChatCompletion [Some ''{\"story\":[{\"id\":1},{\"id\":2}]}''])
        ''A lonely robot finds a garden.'' 2
      = Inr (JArr [JObj [(''id'', JNum 1)], JObj [(''id'', JNum 2)]])
   \<and> generateLinearStory (ChatCompletion [Some ''{\"story\":[{\"id\":1},{\"id\":2},{\"id\":3}]}''])
        ''A lonely robot finds a garden.'' 2
      = Inl (Error ''Failed to generate story from AI service.'')"
proof -
  have h: "10 \<le> length ''A lonely robot finds a garden.''" by simp
  have ok: "generateLinearStory (ChatCompletion [Some ''{\"story\":[{\"id\":1},{\"id\":2}]}''])
        ''A lonely robot finds a garden.'' 2
      = Inr (JArr [JObj [(''id'', JNum 1)], JObj [(''id'', JNum 2)]])"
    by code_simp
  have bad: "generateLinearStory (ChatCompletion [Some ''{\"story\":[{\"id\":1},{\"id\":2},{\"id\":3}]}''])
        ''A lonely robot finds a garden.'' 2
      = Inl (Error ''Failed to generate story from AI service.'')"
    by code_simp
  show ?thesis
    using generateLinearStory_exact_count[OF h, of 2
        "ChatCompletion [Some ''{\"story\":[{\"id\":1},{\"id\":2}]}'']"] ok bad
    by simp
qed

section \<open>The session table and its column\<close>

subsection \<open>The column of the story\<close>

lemma consume_stringify:
  assumes "wf_json v"
  shows "consume (Some (stringify_value v)) = Inr v"
  using JSON_roundtrip[OF assms] stringify_value_nonempty[of v] by (simp add: consume_def)

lemma prepare_array: "prepare (JArr xs) = Some (stringify_value (JArr xs))"
  by (simp add: prepare_def JSON_stringify_def)

lemma wf_scene_values: "wf_elements (map scene_value ss)"
  by (induction ss) (simp_all add: scene_value_def)

subsection \<open>Rows\<close>

lemma findByOrFail_Inr:
  assumes "findByOrFail d u = Inr s"
  shows "\<exists>i<length d. row_uuid (d ! i) = u \<and> (\<forall>j<i. row_uuid (d ! j) \<noteq> u)
           \<and> ident s = row_id (d ! i) \<and> uuid s = row_uuid (d ! i)
           \<and> initialBriefing s = initial_briefing (d ! i)
           \<and> sceneCount s = scene_count (d ! i)
           \<and> createdAt s = created_at (d ! i)
           \<and> consume (Some (current_story_state (d ! i))) = Inr (currentStoryState s)"
proof -
  from assms obtain r story where f: "List.find (\<lambda>r. row_uuid r = u) d = Some r"
    and c: "consume (Some (current_story_state r)) = Inr story"
    and s: "s = \<lparr>ident = row_id r, uuid = row_uuid r, initialBriefing = initial_briefing r,
                    sceneCount = scene_count r, currentStoryState = story,
                    createdAt = created_at r, updatedAt = updated_at r\<rparr>"
    by (auto simp: findByOrFail_def split: option.splits sum.splits)
  from f obtain i where "i < length d" "row_uuid (d ! i) = u" "r = d ! i"
    "\<forall>j<i. row_uuid (d ! j) \<noteq> u"
    by (auto simp: find_Some_iff)
  then show ?thesis using c s by auto
qed

lemma write_row_other: "row_id r \<noteq> ident s \<Longrightarrow> write_row t s js r = r"
  by (simp add: write_row_def)

lemma write_row_same:
  assumes "ident s = row_id r" "uuid s = row_uuid r" "initialBriefing s = initial_briefing r"
    "sceneCount s = scene_count r"
  shows "write_row t s js r = r\<lparr>current_story_state := js, updated_at := t\<rparr>"
  using assms by (simp add: write_row_def)

lemma save_one_row:
  assumes dist: "distinct (map row_id d)" and i: "i < length d"
    and same: "ident s = row_id (d ! i)" "uuid s = row_uuid (d ! i)"
      "initialBriefing s = initial_briefing (d ! i)" "sceneCount s = scene_count (d ! i)"
  shows "map (write_row t s js) d = d[i := (d ! i)\<lparr>current_story_state := js, updated_at := t\<rparr>]"
proof (rule nth_equalityI)
  show "length (map (write_row t s js) d)
        = length (d[i := (d ! i)\<lparr>current_story_state := js, updated_at := t\<rparr>])"
    by simp
next
  fix j assume "j < length (map (write_row t s js) d)"
  then have j: "j < length d" by simp
  show "map (write_row t s js) d ! j
        = d[i := (d ! i)\<lparr>current_story_state := js, updated_at := t\<rparr>] ! j"
  proof (cases "j = i")
    case True
    then show ?thesis using i write_row_same[OF same] by simp
  next
    case False
    have "map row_id d ! j \<noteq> map row_id d ! i"
      using dist i j False by (simp add: nth_eq_iff_index_eq del: nth_map)
    then have "row_id (d ! j) \<noteq> ident s" using i j same(1) by simp
    then show ?thesis using j False by (simp add: write_row_other)
  qed
qed

text \<open>A request on an existing session that ends well has written one row.\<close>

lemma saved_session:
  assumes dist: "distinct (map row_id d)"
    and f: "findByOrFail d u = Inr s"
    and sv: "StorySession_save e (s\<lparr>currentStoryState := story\<rparr>) d = (Inr saved, d')"
  shows "\<exists>i js. i < length d \<and> row_uuid (d ! i) = u \<and> (\<forall>j<i. row_uuid (d ! j) \<noteq> u)
           \<and> prepare story = Some js
           \<and> d' = d[i := (d ! i)\<lparr>current_story_state := js, updated_at := now e\<rparr>]
           \<and> saved = s\<lparr>currentStoryState := story, updatedAt := now e\<rparr>"
proof -
  from findByOrFail_Inr[OF f] obtain i where i: "i < length d" "row_uuid (d ! i) = u"
    "\<forall>j<i. row_uuid (d ! j) \<noteq> u"
    and same: "ident s = row_id (d ! i)" "uuid s = row_uuid (d ! i)"
      "initialBriefing s = initial_briefing (d ! i)" "sceneCount s = scene_count (d ! i)"
    by blast
  from sv obtain js where p: "prepare story = Some js"
    and d': "d' = map (write_row (now e) (s\<lparr>currentStoryState := story\<rparr>) js) d"
    and sd: "saved = s\<lparr>currentStoryState := story, updatedAt := now e\<rparr>"
    by (auto simp: StorySession_save_def split: option.splits)
  have "d' = d[i := (d ! i)\<lparr>current_story_state := js, updated_at := now e\<rparr>]"
    unfolding d' using save_one_row[OF dist i(1), of "s\<lparr>currentStoryState := story\<rparr>"] same
    by simp
  then show ?thesis using i p sd by blast
qed

lemma save_failure: "StorySession_save e s d = (Inl err, d') \<Longrightarrow> d' = d"
  by (auto simp: StorySession_save_def split: option.splits)

lemma update_cases:
  "StoryGeneratorController_update e u prompt d = (res, d') \<Longrightarrow>
     (\<exists>err. res = Inl err \<and> d' = d)
   \<or> (\<exists>s story log saved. findByOrFail d u = Inr s \<and> 5 \<le> length prompt
         \<and> refineStory (chat e) (currentStoryState s) prompt = (Inr story, log)
         \<and> StorySession_save e (s\<lparr>currentStoryState := story\<rparr>) d = (Inr saved, d')
         \<and> res = Inr (Ok (uuid saved) (currentStoryState saved)))"
  unfolding StoryGeneratorController_update_def
  by (auto split: sum.splits if_splits prod.splits dest: save_failure)

lemma final_store_cases:
  "FinalStoriesController_store e u url d = (res, d') \<Longrightarrow>
     (\<exists>err. res = Inl err \<and> d' = d)
   \<or> (\<exists>s story calls saved. findByOrFail d u = Inr s \<and> isURL e url
         \<and> generateFinalImages (images e) (chat e) (currentStoryState s) url = (Inr story, calls)
         \<and> StorySession_save e (s\<lparr>currentStoryState := story\<rparr>) d = (Inr saved, d')
         \<and> res = Inr (OkSession saved))"
  unfolding FinalStoriesController_store_def
  by (auto split: sum.splits if_splits prod.splits dest: save_failure)

subsection \<open>The session a creation leaves\<close>




subsection \<open>Sizes of batches\<close>




lemma find_first:
  assumes "i < length xs" "P (xs ! i)" "\<forall>j<i. \<not> P (xs ! j)"
  shows "List.find P xs = Some (xs ! i)"
  using assms by (auto simp: find_Some_iff)

section \<open>Story refinement\<close>






section \<open>Art style suggestion and final illustration\<close>

text \<open>
  Claim C4, as the code has it. When \<open>suggestStyles\<close> succeeds, the text stage returned
  three styles, three image requests were issued, and the result has three suggestions; the
  suggestion at each position has a non-empty \<^verbatim>\<open>imageUrl\<close>, the URL of the response to the
  request of that position, and its \<^verbatim>\<open>name\<close>, \<^verbatim>\<open>description\<close> and \<^verbatim>\<open>imagePrompt\<close> are
  whatever the style object of that position had (\<^verbatim>\<open>undefined\<close> when it had none). When the
  text stage fails, or returns an array of another length, or some image request of the
  three yields no URL, the call fails and returns no suggestion.
\<close>

theorem suggestStyles_all_or_nothing:
  "(\<forall>result calls. suggestStyles api completion firstScene = (Inr result, calls) \<longrightarrow>
      (\<exists>styles out. generateStylePrompts completion firstScene = Inr styles
         \<and> result = JArr out \<and> length out = 3 \<and> length styles = 3 \<and> length calls = 3
         \<and> (\<forall>i<3. (\<exists>d u. api i (calls ! i) = ImageResponse d \<and> has_url d u
                       \<and> get_prop (out ! i) ''imageUrl'' = Inr (JStr u))
                 \<and> get_prop (out ! i) ''name'' = get_prop (styles ! i) ''name''
                 \<and> get_prop (out ! i) ''description'' = get_prop (styles ! i) ''description''
                 \<and> get_prop (out ! i) ''imagePrompt'' = get_prop (styles ! i) ''imagePrompt'')))
   \<and> (\<forall>e. generateStylePrompts completion firstScene = Inl e
          \<longrightarrow> suggestStyles api completion firstScene = (Inl e, []))
   \<and> (\<forall>c v xs. first_content completion = Inr (Some c) \<and> JSON_parse c = Some v
          \<and> get_prop v ''artStyles'' = Inr (JArr xs) \<and> length xs \<noteq> 3
          \<longrightarrow> (\<exists>e. suggestStyles api completion firstScene = (Inl e, [])))
   \<and> (\<forall>styles calls i. generateStylePrompts completion firstScene = Inr styles
          \<and> issue_requests (fullImagePrompt firstScene) styles = (calls, None)
          \<and> i < 3 \<and> \<not> (\<exists>d u. api i (calls ! i) = ImageResponse d \<and> has_url d u)
          \<longrightarrow> (\<exists>e. suggestStyles api completion firstScene = (Inl e, calls)))"
proof (intro conjI allI impI)
  fix result calls
  assume s: "suggestStyles api completion firstScene = (Inr result, calls)"
  from suggestStyles_success[OF s]
  obtain styles ds out where st: "generateStylePrompts completion firstScene = Inr styles"
    and req: "issue_requests (fullImagePrompt firstScene) styles = (calls, None)"
    and all: "Promise_all (responses api calls) = Inr ds"
    and fin: "finalSuggestions styles ds = Inr out" and res: "result = JArr out"
    by auto
  have three: "length styles = 3" using generateStylePrompts_three[OF st] .
  note j = batch_join[OF req all]
  note f = finalSuggestions_Inr[OF fin]
  have "\<forall>i<3. (\<exists>d u. api i (calls ! i) = ImageResponse d \<and> has_url d u
                       \<and> get_prop (out ! i) ''imageUrl'' = Inr (JStr u))
                 \<and> get_prop (out ! i) ''name'' = get_prop (styles ! i) ''name''
                 \<and> get_prop (out ! i) ''description'' = get_prop (styles ! i) ''description''
                 \<and> get_prop (out ! i) ''imagePrompt'' = get_prop (styles ! i) ''imagePrompt''"
  proof (intro allI impI)
    fix i :: nat assume "i < 3"
    then have i: "i < length styles" using three by simp
    obtain u where u: "has_url (ds ! i) u"
      and o: "out ! i = JObj (set_prop (own_props (styles ! i)) ''imageUrl'' (JStr u))"
      using f i by blast
    have d: "styles ! i \<noteq> JUndefined" "styles ! i \<noteq> JNull"
      using fullImagePrompt_defined[OF j(3)[OF i]] by simp_all
    have keep: "\<And>k. named_key k \<Longrightarrow> k \<noteq> ''imageUrl''
                  \<Longrightarrow> get_prop (out ! i) k = get_prop (styles ! i) k"
      using get_prop_copy[OF _ d] unfolding o get_prop_set_prop by simp
    have a: "api i (calls ! i) = ImageResponse (ds ! i)" using j(4)[OF i] .
    show "(\<exists>d u. api i (calls ! i) = ImageResponse d \<and> has_url d u
                       \<and> get_prop (out ! i) ''imageUrl'' = Inr (JStr u))
                 \<and> get_prop (out ! i) ''name'' = get_prop (styles ! i) ''name''
                 \<and> get_prop (out ! i) ''description'' = get_prop (styles ! i) ''description''
                 \<and> get_prop (out ! i) ''imagePrompt'' = get_prop (styles ! i) ''imagePrompt''"
      using keep[OF named_keys(5)] keep[OF named_keys(6)] keep[OF named_keys(7)] a u
      unfolding o get_prop_set_prop by auto
  qed
  then show "\<exists>styles out. generateStylePrompts completion firstScene = Inr styles
         \<and> result = JArr out \<and> length out = 3 \<and> length styles = 3 \<and> length calls = 3
         \<and> (\<forall>i<3. (\<exists>d u. api i (calls ! i) = ImageResponse d \<and> has_url d u
                       \<and> get_prop (out ! i) ''imageUrl'' = Inr (JStr u))
                 \<and> get_prop (out ! i) ''name'' = get_prop (styles ! i) ''name''
                 \<and> get_prop (out ! i) ''description'' = get_prop (styles ! i) ''description''
                 \<and> get_prop (out ! i) ''imagePrompt'' = get_prop (styles ! i) ''imagePrompt'')"
    using st res f three j(1) by auto
next
  fix e assume "generateStylePrompts completion firstScene = Inl e"
  then show "suggestStyles api completion firstScene = (Inl e, [])"
    by (simp add: suggestStyles_def)
next
  fix c v xs
  assume h: "first_content completion = Inr (Some c) \<and> JSON_parse c = Some v
          \<and> get_prop v ''artStyles'' = Inr (JArr xs) \<and> length xs \<noteq> 3"
  then have "c \<noteq> []" by (auto simp: JSON_parse_def skip_ws_def)
  with h have "\<exists>e. generateStylePrompts completion firstScene = Inl e"
    by (auto simp: generateStylePrompts_def split: sum.splits)
  then show "\<exists>e. suggestStyles api completion firstScene = (Inl e, [])"
    by (auto simp: suggestStyles_def)
next
  fix styles calls i
  assume h: "generateStylePrompts completion firstScene = Inr styles
          \<and> issue_requests (fullImagePrompt firstScene) styles = (calls, None)
          \<and> i < 3 \<and> \<not> (\<exists>d u. api i (calls ! i) = ImageResponse d \<and> has_url d u)"
  then have st: "generateStylePrompts completion firstScene = Inr styles"
    and req: "issue_requests (fullImagePrompt firstScene) styles = (calls, None)"
    and i: "i < 3" and no: "\<not> (\<exists>d u. api i (calls ! i) = ImageResponse d \<and> has_url d u)"
    by auto
  have three: "length styles = 3" using generateStylePrompts_three[OF st] .
  show "\<exists>e. suggestStyles api completion firstScene = (Inl e, calls)"
  proof (cases "Promise_all (responses api calls)")
    case (Inl e)
    then show ?thesis using st req by (simp add: suggestStyles_def)
  next
    case (Inr ds)
    note j = batch_join[OF req Inr]
    have "api i (calls ! i) = ImageResponse (ds ! i)" using j(4)[of i] i three by simp
    with no have "\<not> (\<exists>u. has_url (ds ! i) u)" by auto
    then obtain e where "finalSuggestions styles ds = Inl e"
      using finalSuggestions_no_url[of i styles ds] i three j(2) by auto
    then show ?thesis using st req Inr by (simp add: suggestStyles_def)
  qed
qed

text \<open>
  Three style objects of which only the first has a name, and none a description or an image
  prompt: the call succeeds and returns suggestions without these properties.
\<close>

theorem suggestStyles_fields_counterexample:
  "suggestStyles example_images
      (ChatCompletion [Some ''{\"artStyles\":[{\"name\":\"Noir\"},{},{}]}''])
      (scene_value (hd example_story))
     = (Inr (JArr
         [JObj [(''name'', JStr ''Noir''), (''imageUrl'', JStr ''https://img.example/0'')],
          JObj [(''imageUrl'', JStr ''https://img.example/1'')],
          JObj [(''imageUrl'', JStr ''https://img.example/2'')]]),
        [''a small robot, undefined'', ''a small robot, undefined'', ''a small robot, undefined''])
   \<and> get_prop (JObj [(''imageUrl'', JStr ''https://img.example/1'')]) ''name'' = Inr JUndefined
   \<and> get_prop (JObj [(''imageUrl'', JStr ''https://img.example/1'')]) ''description'' = Inr JUndefined
   \<and> get_prop (JObj [(''imageUrl'', JStr ''https://img.example/1'')]) ''imagePrompt'' = Inr JUndefined"
  by code_simp

text \<open>Three complete styles; the same with no URL for the second image; two styles only.\<close>

theorem suggestStyles_all_or_nothing_witness:
  "suggestStyles example_images (ChatCompletion [Some example_styles]) (scene_value (hd example_story))
     = (Inr (JArr
         [JObj [(''name'', JStr ''Noir''), (''description'', JStr ''dark''),
                (''imagePrompt'', JStr ''film noir''), (''imageUrl'', JStr ''https://img.example/0'')],
          JObj [(''name'', JStr ''Pastel''), (''description'', JStr ''soft''),
                (''imagePrompt'', JStr ''pastel chalk''), (''imageUrl'', JStr ''https://img.example/1'')],
          JObj [(''name'', JStr ''Pixel''), (''description'', JStr ''retro''),
                (''imagePrompt'', JStr ''pixel art''), (''imageUrl'', JStr ''https://img.example/2'')]]),
        [''a small robot, film noir'', ''a small robot, pastel chalk'', ''a small robot, pixel art''])
   \<and> suggestStyles (\<lambda>i p. if i = 1 then ImageResponse (Some []) else example_images i p)
        (ChatCompletion [Some example_styles]) (scene_value (hd example_story))
     = (Inl (Error ''DALL-E did not return an image URL for style: Pastel''),
        [''a small robot, film noir'', ''a small robot, pastel chalk'', ''a small robot, pixel art''])
   \<and> suggestStyles example_images
        (ChatCompletion [Some ''{\"artStyles\":[{\"name\":\"Noir\"},{\"name\":\"Pastel\"}]}''])
        (scene_value (hd example_story))
     = (Inl (Error ''AI did not return exactly three art style suggestions.''), [])"
proof -
  have a: "suggestStyles example_images (ChatCompletion [Some example_styles]) (scene_value (hd example_story))
     = (Inr (JArr
         [JObj [(''name'', JStr ''Noir''), (''description'', JStr ''dark''),
                (''imagePrompt'', JStr ''film noir''), (''imageUrl'', JStr ''https://img.example/0'')],
          JObj [(''name'', JStr ''Pastel''), (''description'', JStr ''soft''),
                (''imagePrompt'', JStr ''pastel chalk''), (''imageUrl'', JStr ''https://img.example/1'')],
          JObj [(''name'', JStr ''Pixel''), (''description'', JStr ''retro''),
                (''imagePrompt'', JStr ''pixel art''), (''imageUrl'', JStr ''https://img.example/2'')]]),
        [''a small robot, film noir'', ''a small robot, pastel chalk'', ''a small robot, pixel art''])"
    by code_simp
  have b: "suggestStyles (\<lambda>i p. if i = 1 then ImageResponse (Some []) else example_images i p)
        (ChatCompletion [Some example_styles]) (scene_value (hd example_story))
     = (Inl (Error ''DALL-E did not return an image URL for style: Pastel''),
        [''a small robot, film noir'', ''a small robot, pastel chalk'', ''a small robot, pixel art''])"
    by code_simp
  have c: "suggestStyles example_images
        (ChatCompletion [Some ''{\"artStyles\":[{\"name\":\"Noir\"},{\"name\":\"Pastel\"}]}''])
        (scene_value (hd example_story))
     = (Inl (Error ''AI did not return exactly three art style suggestions.''), [])"
    by code_simp
  show ?thesis
    using suggestStyles_all_or_nothing[of example_images "ChatCompletion [Some example_styles]"
        "scene_value (hd example_story)"] a b c
    by simp
qed

text \<open>
  Claim C2. When \<open>generateFinalImages\<close> succeeds on a non-empty array of scenes, the result is
  an array of the same length; at every position the properties \<^verbatim>\<open>id\<close>, \<^verbatim>\<open>narrator\<close>,
  \<^verbatim>\<open>character\<close> and \<^verbatim>\<open>dialogue\<close> are those of the input scene, \<^verbatim>\<open>backgroundPrompt\<close> is the
  empty string, and \<^verbatim>\<open>characterImagePrompt\<close> is the URL the image endpoint returned for the
  request of that position.
\<close>

theorem generateFinalImages_result:
  assumes "scenes \<noteq> []"
    and "generateFinalImages api completion (JArr scenes) url = (Inr result, calls)"
  shows "\<exists>out. result = JArr out \<and> length out = length scenes
           \<and> (\<forall>i<length scenes.
                 get_prop (out ! i) ''id'' = get_prop (scenes ! i) ''id''
               \<and> get_prop (out ! i) ''narrator'' = get_prop (scenes ! i) ''narrator''
               \<and> get_prop (out ! i) ''character'' = get_prop (scenes ! i) ''character''
               \<and> get_prop (out ! i) ''dialogue'' = get_prop (scenes ! i) ''dialogue''
               \<and> get_prop (out ! i) ''backgroundPrompt'' = Inr (JStr [])
               \<and> (\<exists>d u. api i (calls ! i) = ImageResponse d \<and> has_url d u
                     \<and> get_prop (out ! i) ''characterImagePrompt'' = Inr (JStr u)))"
proof -
  from generateFinalImages_success[OF assms(2)]
  obtain cp ds out where cp: "createConsistencyPrompt completion url = Inr cp"
    and req: "issue_requests (finalPrompt cp) scenes = (calls, None)"
    and all: "Promise_all (responses api calls) = Inr ds"
    and fin: "finalizedScenes scenes ds = Inr out" and res: "result = JArr out"
    by auto
  note j = batch_join[OF req all]
  note f = finalizedScenes_Inr[OF fin]
  have "\<forall>i<length scenes.
          get_prop (out ! i) ''id'' = get_prop (scenes ! i) ''id''
        \<and> get_prop (out ! i) ''narrator'' = get_prop (scenes ! i) ''narrator''
        \<and> get_prop (out ! i) ''character'' = get_prop (scenes ! i) ''character''
        \<and> get_prop (out ! i) ''dialogue'' = get_prop (scenes ! i) ''dialogue''
        \<and> get_prop (out ! i) ''backgroundPrompt'' = Inr (JStr [])
        \<and> (\<exists>d u. api i (calls ! i) = ImageResponse d \<and> has_url d u
              \<and> get_prop (out ! i) ''characterImagePrompt'' = Inr (JStr u))"
  proof (intro allI impI)
    fix i assume i: "i < length scenes"
    obtain u where u: "has_url (ds ! i) u"
      and o: "out ! i = JObj (set_prop (set_prop (own_props (scenes ! i))
                                 ''characterImagePrompt'' (JStr u)) ''backgroundPrompt'' (JStr []))"
      using f i by blast
    have d: "scenes ! i \<noteq> JUndefined" "scenes ! i \<noteq> JNull"
      using finalPrompt_defined[OF j(3)[OF i]] by simp_all
    have keep: "\<And>k. named_key k \<Longrightarrow> k \<noteq> ''characterImagePrompt'' \<Longrightarrow> k \<noteq> ''backgroundPrompt''
                  \<Longrightarrow> get_prop (out ! i) k = get_prop (scenes ! i) k"
      using get_prop_copy[OF _ d] unfolding o get_prop_set_prop by simp
    have a: "api i (calls ! i) = ImageResponse (ds ! i)" using j(4)[OF i] .
    show "get_prop (out ! i) ''id'' = get_prop (scenes ! i) ''id''
        \<and> get_prop (out ! i) ''narrator'' = get_prop (scenes ! i) ''narrator''
        \<and> get_prop (out ! i) ''character'' = get_prop (scenes ! i) ''character''
        \<and> get_prop (out ! i) ''dialogue'' = get_prop (scenes ! i) ''dialogue''
        \<and> get_prop (out ! i) ''backgroundPrompt'' = Inr (JStr [])
        \<and> (\<exists>d u. api i (calls ! i) = ImageResponse d \<and> has_url d u
              \<and> get_prop (out ! i) ''characterImagePrompt'' = Inr (JStr u))"
      using keep[OF named_keys(1)] keep[OF named_keys(2)] keep[OF named_keys(3)]
        keep[OF named_keys(4)] a u
      unfolding o get_prop_set_prop by auto
  qed
  then show ?thesis using res f by blast
qed

text \<open>A run on the two scenes of the example story.\<close>

theorem generateFinalImages_result_witness:
  "map scene_value example_story \<noteq> []
   \<and> generateFinalImages example_images (ChatCompletion [Some '' A small robot, watercolour ''])
        (scenes_value example_story) ''https://img.example/ref''
     = (Inr (JArr
         [JObj [(''id'', JNum 1), (''narrator'', JStr ''Dawn.''), (''character'', JStr ''Robot''),
                (''characterImagePrompt'', JStr ''https://img.example/0''),
                (''dialogue'', JStr ''Hello.''), (''backgroundPrompt'', JStr [])],
          JObj [(''id'', JNum 2), (''narrator'', JStr ''Dusk.''), (''character'', JStr ''Robot''),
                (''characterImagePrompt'', JStr ''https://img.example/1''),
                (''dialogue'', JStr ''Bye.''), (''backgroundPrompt'', JStr [])]]),
        [''A small robot, watercolour. The scene is: \"Dawn.\". The character is Robot and they are saying \"Hello.\".'',
         ''A small robot, watercolour. The scene is: \"Dusk.\". The character is Robot and they are saying \"Bye.\".''])"
proof -
  have ne: "map scene_value example_story \<noteq> []" by (simp add: example_story_def)
  have run: "generateFinalImages example_images (ChatCompletion [Some '' A small robot, watercolour ''])
        (JArr (map scene_value example_story)) ''https://img.example/ref''
     = (Inr (JArr
         [JObj [(''id'', JNum 1), (''narrator'', JStr ''Dawn.''), (''character'', JStr ''Robot''),
                (''characterImagePrompt'', JStr ''https://img.example/0''),
                (''dialogue'', JStr ''Hello.''), (''backgroundPrompt'', JStr [])],
          JObj [(''id'', JNum 2), (''narrator'', JStr ''Dusk.''), (''character'', JStr ''Robot''),
                (''characterImagePrompt'', JStr ''https://img.example/1''),
                (''dialogue'', JStr ''Bye.''), (''backgroundPrompt'', JStr [])]]),
        [''A small robot, watercolour. The scene is: \"Dawn.\". The character is Robot and they are saying \"Hello.\".'',
         ''A small robot, watercolour. The scene is: \"Dusk.\". The character is Robot and they are saying \"Bye.\".''])"
    by code_simp
  show ?thesis
    using generateFinalImages_result[OF ne run] ne run by (simp add: scenes_value_def)
qed

text \<open>
  Claim C7. In both batches the results are joined by position. When \<open>suggestStyles\<close>
  succeeds, request \<open>i\<close> carries the prompt built from style \<open>i\<close>, and suggestion \<open>i\<close> is
  style \<open>i\<close> with the URL of the response to request \<open>i\<close>. When \<open>generateFinalImages\<close>
  succeeds, request \<open>i\<close> carries the prompt built from scene \<open>i\<close>, and the output scene \<open>i\<close>
  is scene \<open>i\<close> with the URL of the response to request \<open>i\<close>.
\<close>

theorem batches_join_positionally:
  "(\<forall>result calls. suggestStyles api completion firstScene = (Inr result, calls) \<longrightarrow>
      (\<exists>styles out. generateStylePrompts completion firstScene = Inr styles
         \<and> result = JArr out \<and> length out = length styles \<and> length calls = length styles
         \<and> (\<forall>i<length styles.
               fullImagePrompt firstScene (styles ! i) = Inr (calls ! i)
             \<and> (\<exists>d u. api i (calls ! i) = ImageResponse d \<and> has_url d u
                   \<and> out ! i = JObj (set_prop (own_props (styles ! i)) ''imageUrl'' (JStr u))))))
   \<and> (\<forall>result calls. generateFinalImages api completion scenes url = (Inr result, calls) \<longrightarrow>
      (\<exists>cp xs out. createConsistencyPrompt completion url = Inr cp \<and> scenes = JArr xs
         \<and> result = JArr out \<and> length out = length xs \<and> length calls = length xs
         \<and> (\<forall>i<length xs.
               finalPrompt cp (xs ! i) = Inr (calls ! i)
             \<and> (\<exists>d u. api i (calls ! i) = ImageResponse d \<and> has_url d u
                   \<and> out ! i = JObj (set_prop (set_prop (own_props (xs ! i))
                                        ''characterImagePrompt'' (JStr u))
                                      ''backgroundPrompt'' (JStr []))))))"
proof (intro conjI allI impI)
  fix result calls
  assume s: "suggestStyles api completion firstScene = (Inr result, calls)"
  from suggestStyles_success[OF s]
  obtain styles ds out where st: "generateStylePrompts completion firstScene = Inr styles"
    and req: "issue_requests (fullImagePrompt firstScene) styles = (calls, None)"
    and all: "Promise_all (responses api calls) = Inr ds"
    and fin: "finalSuggestions styles ds = Inr out" and res: "result = JArr out"
    by auto
  note j = batch_join[OF req all]
  note f = finalSuggestions_Inr[OF fin]
  have "\<forall>i<length styles.
               fullImagePrompt firstScene (styles ! i) = Inr (calls ! i)
             \<and> (\<exists>d u. api i (calls ! i) = ImageResponse d \<and> has_url d u
                   \<and> out ! i = JObj (set_prop (own_props (styles ! i)) ''imageUrl'' (JStr u)))"
    using j(3) j(4) f by metis
  then show "\<exists>styles out. generateStylePrompts completion firstScene = Inr styles
         \<and> result = JArr out \<and> length out = length styles \<and> length calls = length styles
         \<and> (\<forall>i<length styles.
               fullImagePrompt firstScene (styles ! i) = Inr (calls ! i)
             \<and> (\<exists>d u. api i (calls ! i) = ImageResponse d \<and> has_url d u
                   \<and> out ! i = JObj (set_prop (own_props (styles ! i)) ''imageUrl'' (JStr u))))"
    using st res f j(1) by blast
next
  fix result calls
  assume s: "generateFinalImages api completion scenes url = (Inr result, calls)"
  from generateFinalImages_success[OF s]
  obtain cp xs ds out where cp: "createConsistencyPrompt completion url = Inr cp"
    and sc: "scenes = JArr xs"
    and req: "issue_requests (finalPrompt cp) xs = (calls, None)"
    and all: "Promise_all (responses api calls) = Inr ds"
    and fin: "finalizedScenes xs ds = Inr out" and res: "result = JArr out"
    by auto
  note j = batch_join[OF req all]
  note f = finalizedScenes_Inr[OF fin]
  have "\<forall>i<length xs.
               finalPrompt cp (xs ! i) = Inr (calls ! i)
             \<and> (\<exists>d u. api i (calls ! i) = ImageResponse d \<and> has_url d u
                   \<and> out ! i = JObj (set_prop (set_prop (own_props (xs ! i))
                                        ''characterImagePrompt'' (JStr u))
                                      ''backgroundPrompt'' (JStr [])))"
    using j(3) j(4) f by metis
  then show "\<exists>cp xs out. createConsistencyPrompt completion url = Inr cp \<and> scenes = JArr xs
         \<and> result = JArr out \<and> length out = length xs \<and> length calls = length xs
         \<and> (\<forall>i<length xs.
               finalPrompt cp (xs ! i) = Inr (calls ! i)
             \<and> (\<exists>d u. api i (calls ! i) = ImageResponse d \<and> has_url d u
                   \<and> out ! i = JObj (set_prop (set_prop (own_props (xs ! i))
                                        ''characterImagePrompt'' (JStr u))
                                      ''backgroundPrompt'' (JStr []))))"
    using cp sc res f j(1) by blast
qed

text \<open>Image endpoints whose URL names the prompt, or the position and the scene of the
  prompt: each output carries the URL of its own request.\<close>

theorem batches_join_positionally_witness:
  "suggestStyles (\<lambda>i p. ImageResponse (Some [Some (p @ ''.png'')]))
      (ChatCompletion [Some example_styles]) (scene_value (hd example_story))
     = (Inr (JArr
         [JObj [(''name'', JStr ''Noir''), (''description'', JStr ''dark''),
                (''imagePrompt'', JStr ''film noir''),
                (''imageUrl'', JStr ''a small robot, film noir.png'')],
          JObj [(''name'', JStr ''Pastel''), (''description'', JStr ''soft''),
                (''imagePrompt'', JStr ''pastel chalk''),
                (''imageUrl'', JStr ''a small robot, pastel chalk.png'')],
          JObj [(''name'', JStr ''Pixel''), (''description'', JStr ''retro''),
                (''imagePrompt'', JStr ''pixel art''),
                (''imageUrl'', JStr ''a small robot, pixel art.png'')]]),
        [''a small robot, film noir'', ''a small robot, pastel chalk'', ''a small robot, pixel art''])
   \<and> fst (generateFinalImages (\<lambda>i p. ImageResponse (Some [Some (show_nat i @ ''/'' @ take 5 (drop 20 p))]))
        (ChatCompletion [Some ''ink'']) (scenes_value example_story) ''https://img.example/ref'')
     = Inr (JArr
         [JObj [(''id'', JNum 1), (''narrator'', JStr ''Dawn.''), (''character'', JStr ''Robot''),
                (''characterImagePrompt'', JStr ''0/Dawn.''),
                (''dialogue'', JStr ''Hello.''), (''backgroundPrompt'', JStr [])],
          JObj [(''id'', JNum 2), (''narrator'', JStr ''Dusk.''), (''character'', JStr ''Robot''),
                (''characterImagePrompt'', JStr ''1/Dusk.''),
                (''dialogue'', JStr ''Bye.''), (''backgroundPrompt'', JStr [])]])"
proof -
  have a: "suggestStyles (\<lambda>i p. ImageResponse (Some [Some (p @ ''.png'')]))
      (ChatCompletion [Some example_styles]) (scene_value (hd example_story))
     = (Inr (JArr
         [JObj [(''name'', JStr ''Noir''), (''description'', JStr ''dark''),
                (''imagePrompt'', JStr ''film noir''),
                (''imageUrl'', JStr ''a small robot, film noir.png'')],
          JObj [(''name'', JStr ''Pastel''), (''description'', JStr ''soft''),
                (''imagePrompt'', JStr ''pastel chalk''),
                (''imageUrl'', JStr ''a small robot, pastel chalk.png'')],
          JObj [(''name'', JStr ''Pixel''), (''description'', JStr ''retro''),
                (''imagePrompt'', JStr ''pixel art''),
                (''imageUrl'', JStr ''a small robot, pixel art.png'')]]),
        [''a small robot, film noir'', ''a small robot, pastel chalk'', ''a small robot, pixel art''])"
    by code_simp
  have b: "fst (generateFinalImages (\<lambda>i p. ImageResponse (Some [Some (show_nat i @ ''/'' @ take 5 (drop 20 p))]))
        (ChatCompletion [Some ''ink'']) (scenes_value example_story) ''https://img.example/ref'')
     = Inr (JArr
         [JObj [(''id'', JNum 1), (''narrator'', JStr ''Dawn.''), (''character'', JStr ''Robot''),
                (''characterImagePrompt'', JStr ''0/Dawn.''),
                (''dialogue'', JStr ''Hello.''), (''backgroundPrompt'', JStr [])],
          JObj [(''id'', JNum 2), (''narrator'', JStr ''Dusk.''), (''character'', JStr ''Robot''),
                (''characterImagePrompt'', JStr ''1/Dusk.''),
                (''dialogue'', JStr ''Bye.''), (''backgroundPrompt'', JStr [])]])"
    by code_simp
  show ?thesis
    using batches_join_positionally[of "\<lambda>i p. ImageResponse (Some [Some (p @ ''.png'')])"
        "ChatCompletion [Some example_styles]" "scene_value (hd example_story)"
        "scenes_value example_story" "''https://img.example/ref''"] a b
    by simp
qed




section \<open>Persistence\<close>

text \<open>
  Claim C8. For every list of scenes of type \<open>StoryScene\<close>, \<open>consume\<close> after \<open>prepare\<close> gives
  back the value of the list: the same scenes, in order, with the same fields. The same
  holds of every truthy value that JSON text can denote, whatever its shape.
\<close>

theorem currentStoryState_roundtrip:
  "consume (prepare (scenes_value v)) = Inr (scenes_value v)
   \<and> (wf_json w \<and> truthy w \<longrightarrow> consume (prepare w) = Inr w)"
proof
  have "wf_json (scenes_value v)" by (simp add: scenes_value_def wf_scene_values)
  then show "consume (prepare (scenes_value v)) = Inr (scenes_value v)"
    using consume_stringify[of "scenes_value v"] by (simp add: scenes_value_def prepare_array)
next
  show "wf_json w \<and> truthy w \<longrightarrow> consume (prepare w) = Inr w"
  proof
    assume a: "wf_json w \<and> truthy w"
    then have "prepare w = Some (stringify_value w)"
      by (auto simp: prepare_def JSON_stringify_def)
    then show "consume (prepare w) = Inr w" using a consume_stringify[of w] by simp
  qed
qed

text \<open>The text stored for the first scene of the example story, and what is read back.\<close>

theorem currentStoryState_roundtrip_witness:
  "prepare (scenes_value (take 1 example_story))
     = Some ''[{\"id\":1,\"narrator\":\"Dawn.\",\"character\":\"Robot\",\"characterImagePrompt\":\"a small robot\",\"dialogue\":\"Hello.\",\"backgroundPrompt\":\"a garden\"}]''
   \<and> consume (prepare (scenes_value (take 1 example_story)))
     = Inr (JArr [JObj [(''id'', JNum 1), (''narrator'', JStr ''Dawn.''),
                        (''character'', JStr ''Robot''),
                        (''characterImagePrompt'', JStr ''a small robot''),
                        (''dialogue'', JStr ''Hello.''),
                        (''backgroundPrompt'', JStr ''a garden'')]])
   \<and> wf_json (JArr [JNum (- 7), JStr ''a\<newline>b'', JNull, JObj [(''k'', JBool True)]])
   \<and> truthy (JArr [JNum (- 7), JStr ''a\<newline>b'', JNull, JObj [(''k'', JBool True)]])
   \<and> prepare (JArr [JNum (- 7), JStr ''a\<newline>b'', JNull, JObj [(''k'', JBool True)]])
     = Some (''[-7,\"a'' @ [CHR 0x5C] @ ''nb\",null,{\"k\":true}]'')
   \<and> consume (prepare (JArr [JNum (- 7), JStr ''a\<newline>b'', JNull, JObj [(''k'', JBool True)]]))
     = Inr (JArr [JNum (- 7), JStr ''a\<newline>b'', JNull, JObj [(''k'', JBool True)]])"
proof -
  have a: "prepare (scenes_value (take 1 example_story))
     = Some ''[{\"id\":1,\"narrator\":\"Dawn.\",\"character\":\"Robot\",\"characterImagePrompt\":\"a small robot\",\"dialogue\":\"Hello.\",\"backgroundPrompt\":\"a garden\"}]''"
    by code_simp
  have b: "scenes_value (take 1 example_story)
     = JArr [JObj [(''id'', JNum 1), (''narrator'', JStr ''Dawn.''),
                        (''character'', JStr ''Robot''),
                        (''characterImagePrompt'', JStr ''a small robot''),
                        (''dialogue'', JStr ''Hello.''),
                        (''backgroundPrompt'', JStr ''a garden'')]]"
    by code_simp
  have c: "wf_json (JArr [JNum (- 7), JStr ''a\<newline>b'', JNull, JObj [(''k'', JBool True)]])
      \<and> truthy (JArr [JNum (- 7), JStr ''a\<newline>b'', JNull, JObj [(''k'', JBool True)]])"
    by simp
  have d: "prepare (JArr [JNum (- 7), JStr ''a\<newline>b'', JNull, JObj [(''k'', JBool True)]])
     = Some (''[-7,\"a'' @ [CHR 0x5C] @ ''nb\",null,{\"k\":true}]'')"
    by code_simp
  show ?thesis
    using currentStoryState_roundtrip[of "take 1 example_story"
        "JArr [JNum (- 7), JStr ''a\<newline>b'', JNull, JObj [(''k'', JBool True)]]"] a b c d
    by simp
qed

text \<open>
  Claim C5. A refine or finalize request that ends in an error leaves the table as it was;
  in particular when the session exists and the stage (\<open>refineStory\<close>,
  \<open>generateFinalImages\<close>) fails, whatever image requests were already issued.
\<close>

theorem failed_stage_leaves_session:
  "(\<forall>err d'. StoryGeneratorController_update e u prompt d = (Inl err, d') \<longrightarrow> d' = d)
   \<and> (\<forall>err d'. FinalStoriesController_store e u url d = (Inl err, d') \<longrightarrow> d' = d)
   \<and> (\<forall>s err log. findByOrFail d u = Inr s
          \<and> refineStory (chat e) (currentStoryState s) prompt = (Inl err, log)
          \<longrightarrow> (\<exists>err'. StoryGeneratorController_update e u prompt d = (Inl err', d)))
   \<and> (\<forall>s err calls. findByOrFail d u = Inr s
          \<and> generateFinalImages (images e) (chat e) (currentStoryState s) url = (Inl err, calls)
          \<longrightarrow> (\<exists>err'. FinalStoriesController_store e u url d = (Inl err', d)))"
proof (intro conjI allI impI)
  fix err d'
  assume "StoryGeneratorController_update e u prompt d = (Inl err, d')"
  from update_cases[OF this] show "d' = d" by auto
next
  fix err d'
  assume "FinalStoriesController_store e u url d = (Inl err, d')"
  from final_store_cases[OF this] show "d' = d" by auto
next
  fix s err log
  assume "findByOrFail d u = Inr s
          \<and> refineStory (chat e) (currentStoryState s) prompt = (Inl err, log)"
  then show "\<exists>err'. StoryGeneratorController_update e u prompt d = (Inl err', d)"
    by (simp add: StoryGeneratorController_update_def)
next
  fix s err calls
  assume "findByOrFail d u = Inr s
          \<and> generateFinalImages (images e) (chat e) (currentStoryState s) url = (Inl err, calls)"
  then show "\<exists>err'. FinalStoriesController_store e u url d = (Inl err', d)"
    by (simp add: FinalStoriesController_store_def)
qed

text \<open>A rejected text request on refinement, on finalization, and a rejected second image
  request on finalization: the table is unchanged each time.\<close>

theorem failed_stage_leaves_session_witness:
  "StoryGeneratorController_update (example_env ChatRejected) ''6f1c'' ''Make it angrier'' example_db
     = (Inl (Error ''Failed to refine story from AI service.''), example_db)
   \<and> FinalStoriesController_store (example_env ChatRejected) ''6f1c'' ''https://img.example/ref''
        example_db
     = (Inl ApiError, example_db)
   \<and> FinalStoriesController_store
        ((example_env (ChatCompletion [Some ''watercolour'']))
           \<lparr>images := (\<lambda>i p. if i = 1 then ImageRejected else example_images i p)\<rparr>)
        ''6f1c'' ''https://img.example/ref'' example_db
     = (Inl ApiError, example_db)"
proof -
  have a: "StoryGeneratorController_update (example_env ChatRejected) ''6f1c'' ''Make it angrier'' example_db
     = (Inl (Error ''Failed to refine story from AI service.''), example_db)"
    by code_simp
  have b: "FinalStoriesController_store (example_env ChatRejected) ''6f1c'' ''https://img.example/ref''
        example_db
     = (Inl ApiError, example_db)"
    by code_simp
  have c: "FinalStoriesController_store
        ((example_env (ChatCompletion [Some ''watercolour'']))
           \<lparr>images := (\<lambda>i p. if i = 1 then ImageRejected else example_images i p)\<rparr>)
        ''6f1c'' ''https://img.example/ref'' example_db
     = (Inl ApiError, example_db)"
    by code_simp
  show ?thesis
    using failed_stage_leaves_session[of "example_env ChatRejected" "''6f1c''"
        "''Make it angrier''" example_db "''https://img.example/ref''"] a b c
    by simp
qed

text \<open>
  Claim C9. In a table whose primary keys are distinct, a successful refine or finalize
  request changes one row, the one of the session, and in it only the columns
  \<^verbatim>\<open>current_story_state\<close> and \<^verbatim>\<open>updated_at\<close>: \<^verbatim>\<open>id\<close>, \<^verbatim>\<open>uuid\<close>, \<^verbatim>\<open>initial_briefing\<close>,
  \<^verbatim>\<open>scene_count\<close> and \<^verbatim>\<open>created_at\<close> keep their values. A successful creation appends one
  row, written with the generated \<^verbatim>\<open>uuid\<close>, the briefing and the scene count of the request.
\<close>

theorem session_frame:
  assumes "distinct (map row_id d)"
  shows "(\<forall>resp d'. StoryGeneratorController_update e u prompt d = (Inr resp, d') \<longrightarrow>
            (\<exists>i js t. i < length d \<and> row_uuid (d ! i) = u
               \<and> d' = d[i := (d ! i)\<lparr>current_story_state := js, updated_at := t\<rparr>]))
       \<and> (\<forall>resp d'. FinalStoriesController_store e u url d = (Inr resp, d') \<longrightarrow>
            (\<exists>i js t. i < length d \<and> row_uuid (d ! i) = u
               \<and> d' = d[i := (d ! i)\<lparr>current_story_state := js, updated_at := t\<rparr>]))
       \<and> (\<forall>resp d'. StoryGeneratorController_store e b n d = (Inr resp, d') \<longrightarrow>
            (\<exists>row story. d' = d @ [row] \<and> row_uuid row = randomUUID e
               \<and> initial_briefing row = b \<and> scene_count row = n
               \<and> resp = Created (randomUUID e) story))"
proof (intro conjI allI impI)
  fix resp d'
  assume "StoryGeneratorController_update e u prompt d = (Inr resp, d')"
  from update_cases[OF this] obtain s story saved where
    "findByOrFail d u = Inr s"
    "StorySession_save e (s\<lparr>currentStoryState := story\<rparr>) d = (Inr saved, d')"
    by auto
  from saved_session[OF assms this]
  show "\<exists>i js t. i < length d \<and> row_uuid (d ! i) = u
               \<and> d' = d[i := (d ! i)\<lparr>current_story_state := js, updated_at := t\<rparr>]"
    by blast
next
  fix resp d'
  assume "FinalStoriesController_store e u url d = (Inr resp, d')"
  from final_store_cases[OF this] obtain s story saved where
    "findByOrFail d u = Inr s"
    "StorySession_save e (s\<lparr>currentStoryState := story\<rparr>) d = (Inr saved, d')"
    by auto
  from saved_session[OF assms this]
  show "\<exists>i js t. i < length d \<and> row_uuid (d ! i) = u
               \<and> d' = d[i := (d ! i)\<lparr>current_story_state := js, updated_at := t\<rparr>]"
    by blast
next
  fix resp d'
  assume "StoryGeneratorController_store e b n d = (Inr resp, d')"
  then show "\<exists>row story. d' = d @ [row] \<and> row_uuid row = randomUUID e
               \<and> initial_briefing row = b \<and> scene_count row = n
               \<and> resp = Created (randomUUID e) story"
    by (auto simp: StoryGeneratorController_store_def StorySession_create_def Let_def
          generateUuid_def split: if_splits sum.splits option.splits)
qed

text \<open>A refinement and a creation on the example table.\<close>

theorem session_frame_witness:
  "distinct (map row_id example_db)
   \<and> StoryGeneratorController_update
        (example_env (ChatCompletion [Some ''{\"story\":[{\"id\":1},{\"id\":2},{\"id\":3}]}'']))
        ''6f1c'' ''Make it angrier'' example_db
     = (Inr (Ok ''6f1c'' (JArr [JObj [(''id'', JNum 1)], JObj [(''id'', JNum 2)], JObj [(''id'', JNum 3)]])),
        example_db[0 := (example_db ! 0)\<lparr>current_story_state := ''[{\"id\":1},{\"id\":2},{\"id\":3}]'',
                                             updated_at := 20\<rparr>])
   \<and> snd (StoryGeneratorController_store
           (example_env (ChatCompletion [Some ''{\"story\":[{\"id\":1},{\"id\":2}]}'']))
           ''A lonely robot finds a garden.'' 2 example_db)
     = example_db @ [\<lparr>row_id = 2, row_uuid = ''9a2e'',
            initial_briefing = ''A lonely robot finds a garden.'', scene_count = 2,
            current_story_state = ''[{\"id\":1},{\"id\":2}]'', created_at = 20, updated_at = 20\<rparr>]"
proof -
  have d: "distinct (map row_id example_db)" by (simp add: example_db_def)
  have a: "StoryGeneratorController_update
        (example_env (ChatCompletion [Some ''{\"story\":[{\"id\":1},{\"id\":2},{\"id\":3}]}'']))
        ''6f1c'' ''Make it angrier'' example_db
     = (Inr (Ok ''6f1c'' (JArr [JObj [(''id'', JNum 1)], JObj [(''id'', JNum 2)], JObj [(''id'', JNum 3)]])),
        example_db[0 := (example_db ! 0)\<lparr>current_story_state := ''[{\"id\":1},{\"id\":2},{\"id\":3}]'',
                                             updated_at := 20\<rparr>])"
    by code_simp
  have b: "snd (StoryGeneratorController_store
           (example_env (ChatCompletion [Some ''{\"story\":[{\"id\":1},{\"id\":2}]}'']))
           ''A lonely robot finds a garden.'' 2 example_db)
     = example_db @ [\<lparr>row_id = 2, row_uuid = ''9a2e'',
            initial_briefing = ''A lonely robot finds a garden.'', scene_count = 2,
            current_story_state = ''[{\"id\":1},{\"id\":2}]'', created_at = 20, updated_at = 20\<rparr>]"
    by code_simp
  show ?thesis
    using session_frame[OF d, of "example_env (ChatCompletion [Some ''{\"story\":[{\"id\":1},{\"id\":2},{\"id\":3}]}''])"
        "''6f1c''" "''Make it angrier''"] d a b
    by simp
qed

text \<open>
  Claim C10. For a session whose story is the empty array, with a valid reference URL and a
  text request that yields a consistency prompt, \<open>generateFinalImages\<close> issues no image
  request and returns the empty array, and the controller answers with the session and
  leaves the empty array as its stored story. The consistency prompt is derived first: when
  that fails, the stage fails, again without an image request.
\<close>

theorem finalize_empty_story:
  assumes "distinct (map row_id d)" and "findByOrFail d u = Inr s"
    and "currentStoryState s = JArr []" and "isURL e url"
    and "createConsistencyPrompt (chat e) url = Inr cp"
  shows "generateFinalImages (images e) (chat e) (JArr []) url = (Inr (JArr []), [])
       \<and> (\<forall>c err. createConsistencyPrompt c url = Inl err
             \<longrightarrow> generateFinalImages (images e) c (JArr []) url = (Inl err, []))
       \<and> (\<exists>d' saved s'. FinalStoriesController_store e u url d = (Inr (OkSession saved), d')
             \<and> currentStoryState saved = JArr []
             \<and> findByOrFail d' u = Inr s' \<and> currentStoryState s' = JArr [])"
proof (intro conjI allI impI)
  show g: "generateFinalImages (images e) (chat e) (JArr []) url = (Inr (JArr []), [])"
    using assms(5) by (simp add: generateFinalImages_def responses_def)
  show "\<And>c err. createConsistencyPrompt c url = Inl err
          \<Longrightarrow> generateFinalImages (images e) c (JArr []) url = (Inl err, [])"
    by (simp add: generateFinalImages_def)
  have p: "prepare (JArr []) = Some ''[]''" by (simp add: prepare_array)
  obtain saved d' where sv: "StorySession_save e (s\<lparr>currentStoryState := JArr []\<rparr>) d = (Inr saved, d')"
    using p by (simp add: StorySession_save_def)
  from saved_session[OF assms(1,2) sv] obtain i where i: "i < length d" "row_uuid (d ! i) = u"
    "\<forall>j<i. row_uuid (d ! j) \<noteq> u"
    and d': "d' = d[i := (d ! i)\<lparr>current_story_state := ''[]'', updated_at := now e\<rparr>]"
    and sd: "saved = s\<lparr>currentStoryState := JArr [], updatedAt := now e\<rparr>"
    using p by auto
  have c: "FinalStoriesController_store e u url d = (Inr (OkSession saved), d')"
    using assms(2,3,4) g sv by (simp add: FinalStoriesController_store_def)
  have f: "List.find (\<lambda>r. row_uuid r = u) d' = Some (d' ! i)"
    by (rule find_first) (use i d' in \<open>auto simp: nth_list_update\<close>)
  have e: "consume (Some ''[]'') = Inr (JArr [])"
    using consume_stringify[of "JArr []"] by simp
  have "\<exists>s'. findByOrFail d' u = Inr s' \<and> currentStoryState s' = JArr []"
    unfolding findByOrFail_def f using i(1) d' e by simp
  then show "\<exists>d' saved s'. FinalStoriesController_store e u url d = (Inr (OkSession saved), d')
             \<and> currentStoryState saved = JArr []
             \<and> findByOrFail d' u = Inr s' \<and> currentStoryState s' = JArr []"
    using c sd by auto
qed

text \<open>The example session with an empty story.\<close>

theorem finalize_empty_story_witness:
  "distinct (map row_id example_empty_db)
   \<and> findByOrFail example_empty_db ''6f1c''
       = Inr \<lparr>ident = 1, uuid = ''6f1c'', initialBriefing = ''A lonely robot finds a garden.'',
              sceneCount = 2, currentStoryState = JArr [], createdAt = 10, updatedAt = 10\<rparr>
   \<and> isURL (example_env (ChatCompletion [Some ''watercolour''])) ''https://img.example/ref''
   \<and> createConsistencyPrompt (chat (example_env (ChatCompletion [Some ''watercolour''])))
         ''https://img.example/ref'' = Inr ''watercolour''
   \<and> generateFinalImages example_images (ChatCompletion [Some ''watercolour'']) (JArr [])
         ''https://img.example/ref'' = (Inr (JArr []), [])
   \<and> generateFinalImages example_images (ChatCompletion [None]) (JArr [])
         ''https://img.example/ref''
       = (Inl (Error ''GPT-4o failed to generate a consistency prompt from the image.''), [])
   \<and> (case FinalStoriesController_store (example_env (ChatCompletion [Some ''watercolour'']))
               ''6f1c'' ''https://img.example/ref'' example_empty_db of
          (Inr (OkSession saved), d') \<Rightarrow>
            currentStoryState saved = JArr []
            \<and> map current_story_state d' = [''[]'']
            \<and> map_sum id currentStoryState (findByOrFail d' ''6f1c'') = Inr (JArr [])
        | (other, d') \<Rightarrow> False)"
proof -
  have d: "distinct (map row_id example_empty_db)" by (simp add: example_empty_db_def)
  have f: "findByOrFail example_empty_db ''6f1c''
       = Inr \<lparr>ident = 1, uuid = ''6f1c'', initialBriefing = ''A lonely robot finds a garden.'',
              sceneCount = 2, currentStoryState = JArr [], createdAt = 10, updatedAt = 10\<rparr>"
    by code_simp
  have u: "isURL (example_env (ChatCompletion [Some ''watercolour''])) ''https://img.example/ref''"
    by code_simp
  have c: "createConsistencyPrompt (chat (example_env (ChatCompletion [Some ''watercolour''])))
         ''https://img.example/ref'' = Inr ''watercolour''"
    by code_simp
  have g: "generateFinalImages example_images (ChatCompletion [Some ''watercolour'']) (JArr [])
         ''https://img.example/ref'' = (Inr (JArr []), [])"
    by code_simp
  have n: "generateFinalImages example_images (ChatCompletion [None]) (JArr [])
         ''https://img.example/ref''
       = (Inl (Error ''GPT-4o failed to generate a consistency prompt from the image.''), [])"
    by code_simp
  have r: "(case FinalStoriesController_store (example_env (ChatCompletion [Some ''watercolour'']))
               ''6f1c'' ''https://img.example/ref'' example_empty_db of
          (Inr (OkSession saved), d') \<Rightarrow>
            currentStoryState saved = JArr []
            \<and> map current_story_state d' = [''[]'']
            \<and> map_sum id currentStoryState (findByOrFail d' ''6f1c'') = Inr (JArr [])
        | (other, d') \<Rightarrow> False)"
    by code_simp
  show ?thesis
    using finalize_empty_story[OF d f _ u c] d f u c g n r by simp
qed

end
